theory Spec2Isabelle
  imports Main "HOL-Library.Word"
begin

section \<open>Machine types and fatal errors\<close>

text \<open>
  The program is built for a 64-bit Linux target (the default heap is 8 GiB, which only a
  64-bit \<open>size_t\<close> holds): \<open>size_t\<close>, \<open>uintptr_t\<close> and \<open>VkDeviceSize\<close> are 64-bit
  unsigned words and \<open>uint32_t\<close> is a 32-bit word. An \<open>int\<close> has 32 bits; its values are
  integers of HOL in that range, and the conversions to and from the unsigned types are
  written out (\<open>word_of_int\<close>, \<open>sint\<close>).
\<close>

type_synonym u32 = "32 word"
type_synonym u64 = "64 word"

text \<open>
  \<open>renderer_fatal\<close> and \<open>app_fatal\<close> print their message and abort the process; the
  model returns the message as the left summand. A remainder by zero is not defined
  by C and is kept apart as \<open>Div_by_zero\<close>; so are an \<open>int\<close> result that leaves the
  range of \<open>int\<close> (\<open>Int_overflow\<close>) and an array index outside the array
  (\<open>Out_of_bounds\<close>). \<open>Usage_exit\<close> is \<open>app_usage\<close>: the usage line and \<open>exit(1)\<close>.
\<close>

datatype fatal =
    Renderer_fatal string
  | App_fatal string
  | Div_by_zero
  | Int_overflow
  | Out_of_bounds
  | Usage_exit

section \<open>The device, as the renderer queries it\<close>

datatype usage = UNIFORM_BUFFER | TRANSFER_DST

datatype handle_type = DMA_BUF | HOST_ALLOCATION

text \<open>
  The answers of the Vulkan implementation that the layout code reads:
  \<^item> \<open>importable\<close>, \<open>dedicated_only\<close>: the two bits of \<open>externalMemoryFeatures\<close> that
    \<open>vkGetPhysicalDeviceExternalBufferProperties\<close> reports for a usage and handle type;
  \<^item> \<open>buffer_reqs_size\<close>: \<open>None\<close> when \<open>vkCreateBuffer\<close> fails, else
    \<open>memoryRequirements.size\<close> of the temporary buffer of the given size;
  \<^item> \<open>min_host_align\<close>: \<open>minImportedHostPointerAlignment\<close>;
  \<^item> \<open>pagesize\<close>: the \<open>int\<close> that \<open>getpagesize()\<close> returns.
\<close>

record device =
  importable :: "usage \<Rightarrow> handle_type \<Rightarrow> bool"
  dedicated_only :: "usage \<Rightarrow> handle_type \<Rightarrow> bool"
  buffer_reqs_size :: "usage \<Rightarrow> handle_type \<Rightarrow> u64 \<Rightarrow> u64 option"
  min_host_align :: u64
  pagesize :: int

section \<open>renderer.c: the heap layout\<close>

text \<open>
  \<open>renderer_get_heap_buffer_props\<close> (renderer.c, lines 260-312). \<open>sz\<close> is the nominal
  size of the buffer (the parameter \<open>size\<close> of the source), \<open>mem_align\<close> the alignment of
  the import path. The result is the value stored through \<open>alloc\<close>. The remainder is
  taken of the size the device requires, and the padded size is computed in 64-bit
  unsigned arithmetic.
\<close>

definition renderer_get_heap_buffer_props ::
  "device \<Rightarrow> handle_type \<Rightarrow> u64 \<Rightarrow> usage \<Rightarrow> u64 \<Rightarrow> fatal + u64" where
  "renderer_get_heap_buffer_props dev ht sz usg mem_align =
     (if \<not> importable dev usg ht then Inl (Renderer_fatal ''external memory not importable'')
      else case buffer_reqs_size dev usg ht sz of
        None \<Rightarrow> Inl (Renderer_fatal ''failed to create tmp buffer'')
      | Some reqs \<Rightarrow>
          if mem_align = 0 then Inl Div_by_zero
          else let rem = reqs mod mem_align in
            if rem \<noteq> 0 then
              (if dedicated_only dev usg ht
               then Inl (Renderer_fatal ''conflicting size requirement from dedicated allocation'')
               else Inr (reqs - rem + mem_align))
            else Inr sz)"

text \<open>
  The fields of \<open>struct renderer\<close> that the layout reads. The \<open>int\<close> fields are
  integers of HOL, in the range of \<open>int\<close>; a conversion to \<open>VkDeviceSize\<close> is
  \<open>word_of_int\<close>, which extends the sign as C does.
\<close>

record renderer =
  config_width :: int
  config_height :: int
  config_output_count :: int
  config_use_udmabuf :: bool
  heap_size :: u64
  heap_base :: u64

record heap_layout =
  hl_base_skip :: u64
  hl_ubo_size :: u64
  hl_output_size :: u64
  hl_handle_type :: handle_type
  hl_ubo_used_size :: u64
  hl_output_used_size :: u64

text \<open>A product of two \<open>int\<close> values; outside the range of \<open>int\<close> C leaves it undefined.\<close>

definition int_mul :: "int \<Rightarrow> int \<Rightarrow> fatal + int" where
  "int_mul a b =
     (if - (2 ^ 31) \<le> a * b \<and> a * b < 2 ^ 31 then Inr (a * b) else Inl Int_overflow)"

text \<open>
  \<open>renderer_init_heap_layout\<close> (renderer.c, lines 402-455). The final test adds the
  uniform slot and the output slots only; \<open>base_skip\<close> is not part of the sum.
\<close>

definition renderer_init_heap_layout :: "device \<Rightarrow> renderer \<Rightarrow> fatal + heap_layout" where
  "renderer_init_heap_layout dev r =
     (case (if config_use_udmabuf r
            then Inr (word_of_int (pagesize dev) :: u64, 0 :: u64, DMA_BUF)
            else let mem_align = min_host_align dev in
              if mem_align = 0 then Inl Div_by_zero
              else let rem = heap_base r mod mem_align in
                Inr (mem_align, if rem \<noteq> 0 then mem_align - rem else 0, HOST_ALLOCATION))
      of Inl e \<Rightarrow> Inl e
       | Inr (mem_align, skip, ht) \<Rightarrow>
     (case renderer_get_heap_buffer_props dev ht 16 UNIFORM_BUFFER mem_align
      of Inl e \<Rightarrow> Inl e
       | Inr ubo \<Rightarrow>
     (case int_mul (config_width r) (config_height r)
      of Inl e \<Rightarrow> Inl e
       | Inr wh \<Rightarrow>
     (case int_mul wh 4
      of Inl e \<Rightarrow> Inl e
       | Inr used \<Rightarrow>
     (case renderer_get_heap_buffer_props dev ht (word_of_int used) TRANSFER_DST mem_align
      of Inl e \<Rightarrow> Inl e
       | Inr out \<Rightarrow>
          if ubo + out * word_of_int (config_output_count r) > heap_size r
          then Inl (Renderer_fatal ''heap size too small'')
          else Inr \<lparr>hl_base_skip = skip, hl_ubo_size = ubo, hl_output_size = out,
                    hl_handle_type = ht, hl_ubo_used_size = 16,
                    hl_output_used_size = word_of_int used\<rparr>)))))"

text \<open>The spec's rounding rule, on natural numbers, written from the spec's words.\<close>

definition aligned_size_spec :: "nat \<Rightarrow> nat \<Rightarrow> nat" where
  "aligned_size_spec nominal align =
     (if nominal mod align \<noteq> 0 then nominal + (align - nominal mod align) else nominal)"

text \<open>
  A concrete device for evaluation: every usage is importable, \<open>ded\<close> is its
  dedicated-only bit, it requires \<open>ubo_reqs\<close> bytes for the uniform buffer and
  \<open>out_reqs\<close> bytes for an output buffer, and \<open>align\<close> is its
  \<open>minImportedHostPointerAlignment\<close>; pages are 4096 bytes.
\<close>

definition device_of :: "bool \<Rightarrow> u64 \<Rightarrow> u64 \<Rightarrow> u64 \<Rightarrow> device" where
  "device_of ded ubo_reqs out_reqs align =
     \<lparr>importable = (\<lambda>usg ht. True),
      dedicated_only = (\<lambda>usg ht. ded),
      buffer_reqs_size = (\<lambda>usg ht sz. Some (case usg of UNIFORM_BUFFER \<Rightarrow> ubo_reqs
                                                 | TRANSFER_DST \<Rightarrow> out_reqs)),
      min_host_align = align,
      pagesize = 4096\<rparr>"

text \<open>
  The renderer of the demo: 600 x 600 pixels and host-pointer import, with \<open>n\<close> outputs
  (\<open>main\<close> passes 64), a heap of \<open>hsize\<close> bytes mapped at \<open>base\<close>.
\<close>

definition renderer_of :: "int \<Rightarrow> u64 \<Rightarrow> u64 \<Rightarrow> renderer" where
  "renderer_of n hsize base =
     \<lparr>config_width = 600, config_height = 600, config_output_count = n,
      config_use_udmabuf = False, heap_size = hsize, heap_base = base\<rparr>"

section \<open>The control channels\<close>

text \<open>
  A channel is a pipe carrying 4-byte words: the list of the words written and not yet
  read, oldest first. A \<open>write\<close> of four bytes either succeeds and appends the word or
  fails (the flag \<open>ok\<close> is the environment's answer). A \<open>read\<close> returns the oldest
  word; on an empty pipe whose writer is gone it returns no bytes, which both
  processes treat as fatal.
\<close>

type_synonym pipe = "u32 list"

text \<open>\<open>renderer_recv\<close> and \<open>renderer_send\<close> (renderer.c, lines 890-903).\<close>

definition renderer_recv :: "pipe \<Rightarrow> fatal + u32 \<times> pipe" where
  "renderer_recv inp =
     (case inp of [] \<Rightarrow> Inl (Renderer_fatal ''failed to receive a value'')
                | val # rest \<Rightarrow> Inr (val, rest))"

definition renderer_send :: "bool \<Rightarrow> pipe \<Rightarrow> u32 \<Rightarrow> fatal + pipe" where
  "renderer_send ok outp val =
     (if ok then Inr (outp @ [val]) else Inl (Renderer_fatal ''failed to send a value''))"

text \<open>
  \<open>renderer_render\<close> (lines 905-917): \<open>cmd.bufs\<close> has \<open>output_count\<close> entries; the two
  flags are the results of \<open>vkQueueSubmit\<close> and \<open>vkQueueWaitIdle\<close>.
\<close>

definition renderer_render :: "renderer \<Rightarrow> bool \<Rightarrow> bool \<Rightarrow> int \<Rightarrow> fatal + unit" where
  "renderer_render r submit_ok wait_ok outp_index =
     (if outp_index < 0 \<or> config_output_count r \<le> outp_index then Inl Out_of_bounds
      else if \<not> submit_ok then Inl (Renderer_fatal ''failed to submit command buffer'')
      else if \<not> wait_ok then Inl (Renderer_fatal ''failed to wait queue'')
      else Inr ())"

text \<open>
  One turn of the loop of \<open>renderer_mainloop\<close> (lines 919-926): the word read is
  converted to \<open>int\<close> (\<open>sint\<close>), rendered, and converted back to \<open>uint32_t\<close> for the reply.
  The result is the two pipes after the turn.
\<close>

record render_env =
  re_submit_ok :: bool
  re_wait_ok :: bool
  re_send_ok :: bool

definition renderer_frame ::
  "renderer \<Rightarrow> render_env \<Rightarrow> pipe \<Rightarrow> pipe \<Rightarrow> fatal + pipe \<times> pipe" where
  "renderer_frame r env inp outp =
     (case renderer_recv inp of Inl e \<Rightarrow> Inl e
      | Inr (val, inp') \<Rightarrow>
          let outp_index = sint val in
          (case renderer_render r (re_submit_ok env) (re_wait_ok env) outp_index of
             Inl e \<Rightarrow> Inl e
           | Inr u \<Rightarrow>
               (case renderer_send (re_send_ok env) outp (word_of_int outp_index) of
                  Inl e \<Rightarrow> Inl e
                | Inr outp' \<Rightarrow> Inr (inp', outp'))))"

text \<open>The loop itself never returns; the list of environments bounds the turns observed.\<close>

fun renderer_mainloop ::
  "renderer \<Rightarrow> render_env list \<Rightarrow> pipe \<Rightarrow> pipe \<Rightarrow> fatal + pipe \<times> pipe" where
  "renderer_mainloop r [] inp outp = Inr (inp, outp)"
| "renderer_mainloop r (env # envs) inp outp =
     (case renderer_frame r env inp outp of Inl e \<Rightarrow> Inl e
      | Inr (inp', outp') \<Rightarrow> renderer_mainloop r envs inp' outp')"

text \<open>
  \<open>renderer\<close> (lines 928-965) up to the handshake: the layout, then the three
  \<open>renderer_send\<close> calls. Each argument is a \<open>VkDeviceSize\<close> passed for a \<open>uint32_t\<close>
  parameter, which C converts by dropping the upper 32 bits (\<open>ucast\<close>). The three flags
  are the results of the three writes.
\<close>

definition renderer_main ::
  "device \<Rightarrow> renderer \<Rightarrow> bool \<Rightarrow> bool \<Rightarrow> bool \<Rightarrow> pipe \<Rightarrow> fatal + heap_layout \<times> pipe" where
  "renderer_main dev r ok1 ok2 ok3 outp =
     (case renderer_init_heap_layout dev r of Inl e \<Rightarrow> Inl e
      | Inr l \<Rightarrow>
     (case renderer_send ok1 outp (ucast (hl_base_skip l)) of Inl e \<Rightarrow> Inl e
      | Inr outp1 \<Rightarrow>
     (case renderer_send ok2 outp1 (ucast (hl_ubo_size l)) of Inl e \<Rightarrow> Inl e
      | Inr outp2 \<Rightarrow>
     (case renderer_send ok3 outp2 (ucast (hl_output_size l)) of Inl e \<Rightarrow> Inl e
      | Inr outp3 \<Rightarrow> Inr (l, outp3)))))"

section \<open>main.c: the controller\<close>

text \<open>
  The fields of \<open>struct app\<close> that the modelled functions read. Addresses and sizes of
  the controller are natural numbers: C defines pointer arithmetic only inside the
  address space, so no controller pointer wraps around.
\<close>

record app =
  app_output_count :: int
  app_heap_size :: nat
  app_is_coherent :: bool
  app_heap_base :: nat
  app_img_size :: nat
  mems_ubo :: nat
  mems_outputs :: "nat list"

text \<open>What the controller does that another party can observe, in program order.\<close>

datatype event =
    Write_ubo nat
  | Mfence
  | Clflush nat
  | Send u32
  | Recv u32
  | Put_image nat

text \<open>The cache-maintenance calls, and the requests and replies, among the events.\<close>

fun is_cache_op :: "event \<Rightarrow> bool" where
  "is_cache_op Mfence = True"
| "is_cache_op (Clflush p) = True"
| "is_cache_op ev = False"

fun sends :: "event list \<Rightarrow> u32 list" where
  "sends [] = []"
| "sends (Send val # t) = val # sends t"
| "sends (ev # t) = sends t"

text \<open>
  The frame protocol of the spec as a checker of a trace: \<open>Idle\<close> (\<open>False\<close>) goes to
  \<open>AwaitingRender\<close> (\<open>True\<close>) by a request and back by a reply; a request while one is
  in flight, or a reply while none is, is rejected. The other events do not count.
\<close>

fun strict_alternation :: "bool \<Rightarrow> event list \<Rightarrow> bool" where
  "strict_alternation w [] = True"
| "strict_alternation w (Send val # t) = (\<not> w \<and> strict_alternation True t)"
| "strict_alternation w (Recv val # t) = (w \<and> strict_alternation False t)"
| "strict_alternation w (ev # t) = strict_alternation w t"

text \<open>The loop of \<open>app_init_memories\<close> that fills \<open>mems.outputs\<close> and advances \<open>ptr\<close>.\<close>

fun output_pointers :: "nat \<Rightarrow> nat \<Rightarrow> nat \<Rightarrow> nat list \<times> nat" where
  "output_pointers 0 ptr osize = ([], ptr)"
| "output_pointers (Suc n) ptr osize =
     (case output_pointers n (ptr + osize) osize of (ps, p) \<Rightarrow> (ptr # ps, p))"

text \<open>\<open>app_init_memories\<close> (main.c, lines 161-185); \<open>malloc_ok\<close> is the result of \<open>malloc\<close>.\<close>

definition app_init_memories :: "app \<Rightarrow> bool \<Rightarrow> nat \<Rightarrow> nat \<Rightarrow> nat \<Rightarrow> fatal + app" where
  "app_init_memories a malloc_ok heap_skip usize osize =
     (let ubo = app_heap_base a + heap_skip;
          ptr = ubo + usize
      in if \<not> malloc_ok then Inl (App_fatal ''failed to allocate output pointers'')
         else case output_pointers (nat (app_output_count a)) ptr osize of
           (outputs, ptr') \<Rightarrow>
             if usize < 16 then Inl (App_fatal ''invalid ubo size'')
             else if osize < app_img_size a then Inl (App_fatal ''invalid output size'')
             else if ptr' - app_heap_base a > app_heap_size a
               then Inl (App_fatal ''heap size too small'')
             else Inr (a\<lparr>mems_ubo := ubo, mems_outputs := outputs\<rparr>))"

text \<open>\<open>app_recv\<close> and \<open>app_send\<close> (lines 187-201), with the events they leave.\<close>

definition app_recv :: "pipe \<Rightarrow> event list \<times> (fatal + u32 \<times> pipe)" where
  "app_recv inp =
     (case inp of [] \<Rightarrow> ([], Inl (App_fatal ''failed to receive a value''))
                | val # rest \<Rightarrow> ([Recv val], Inr (val, rest)))"

definition app_send :: "bool \<Rightarrow> u32 \<Rightarrow> event list \<times> (fatal + unit)" where
  "app_send ok val =
     (if ok then ([Send val], Inr ()) else ([], Inl (App_fatal ''failed to send a value'')))"

text \<open>
  \<open>app_render_frame\<close> (lines 203-222). The contents of \<open>rgba\<close> are floating-point
  numbers and are not modelled; the write is the event \<open>Write_ubo\<close>. The reply is compared
  with \<open>output\<close> converted to \<open>unsigned int\<close>. \<open>inbox\<close> is what the renderer has written
  when the read returns; the result is what is left of it.
\<close>

definition app_render_frame ::
  "app \<Rightarrow> int \<Rightarrow> bool \<Rightarrow> pipe \<Rightarrow> event list \<times> (fatal + pipe)" where
  "app_render_frame a outp_index send_ok inbox =
     (let t0 = Write_ubo (mems_ubo a) #
               (if \<not> app_is_coherent a then [Mfence, Clflush (mems_ubo a)] else [])
      in case app_send send_ok (word_of_int outp_index) of
           (t1, Inl e) \<Rightarrow> (t0 @ t1, Inl e)
         | (t1, Inr u) \<Rightarrow>
             (case app_recv inbox of
                (t2, Inl e) \<Rightarrow> (t0 @ t1 @ t2, Inl e)
              | (t2, Inr (val, rest)) \<Rightarrow>
                  if val \<noteq> word_of_int outp_index
                  then (t0 @ t1 @ t2, Inl (App_fatal ''unexpected renderer output''))
                  else (t0 @ t1 @ t2, Inr rest)))"

text \<open>The \<open>while (ptr < end)\<close> loop of \<open>app_present_frame\<close>: one \<open>clflush\<close> every 64 bytes.\<close>

function clflush_loop :: "nat \<Rightarrow> nat \<Rightarrow> event list" where
  "clflush_loop ptr e = (if ptr < e then Clflush ptr # clflush_loop (ptr + 64) e else [])"
  by pat_completeness auto
termination
  by (relation "measure (\<lambda>(ptr, e). e - ptr)") auto

declare clflush_loop.simps [simp del]

text \<open>
  \<open>app_present_frame\<close> (lines 224-252); \<open>xcb_put_image\<close> reads the output region and is
  the event \<open>Put_image\<close>. The index must lie inside \<open>mems.outputs\<close>.
\<close>

definition app_present_frame :: "app \<Rightarrow> int \<Rightarrow> event list \<times> (fatal + unit)" where
  "app_present_frame a outp_index =
     (if outp_index < 0 \<or> int (length (mems_outputs a)) \<le> outp_index
      then ([], Inl Out_of_bounds)
      else let ptr = mems_outputs a ! nat outp_index in
        ((if \<not> app_is_coherent a
          then clflush_loop ptr (ptr + app_img_size a) @ [Mfence] else [])
         @ [Put_image ptr], Inr ()))"

text \<open>The local variables of \<open>app_mainloop\<close> (lines 254-284), and the unread replies.\<close>

record loop_state =
  st_output :: int
  st_output_inc :: int
  st_channel :: int
  st_inbox :: pipe

text \<open>What one turn of the loop meets: an X event, the result of the write, the reply.\<close>

record frame_env =
  fe_xcb_event :: bool
  fe_send_ok :: bool
  fe_arrived :: pipe

text \<open>The end of the loop body, under the comment \<open>next value/channel\<close>.\<close>

definition next_value :: "app \<Rightarrow> loop_state \<Rightarrow> loop_state" where
  "next_value a st =
     (let outp_index = st_output st + st_output_inc st in
      if app_output_count a \<le> outp_index
      then st\<lparr>st_output := app_output_count a - 1, st_output_inc := - 1\<rparr>
      else if outp_index < 0
      then st\<lparr>st_output := 1, st_output_inc := 1, st_channel := (st_channel st + 1) mod 3\<rparr>
      else st\<lparr>st_output := outp_index\<rparr>)"

text \<open>
  The \<open>while (true)\<close> loop. It never returns; the list of environments bounds the turns
  observed, and the result is the events of those turns with either the fatal error that
  ended them or the state before the next turn.
\<close>

fun mainloop_turns ::
  "app \<Rightarrow> frame_env list \<Rightarrow> loop_state \<Rightarrow> event list \<times> (fatal + loop_state)" where
  "mainloop_turns a [] st = ([], Inr st)"
| "mainloop_turns a (env # envs) st =
     (if fe_xcb_event env then ([], Inl (App_fatal ''unexpected XCB event''))
      else case app_render_frame a (st_output st) (fe_send_ok env)
                  (st_inbox st @ fe_arrived env) of
        (t1, Inl e) \<Rightarrow> (t1, Inl e)
      | (t1, Inr rest) \<Rightarrow>
          (case app_present_frame a (st_output st) of
             (t2, Inl e) \<Rightarrow> (t1 @ t2, Inl e)
           | (t2, Inr u) \<Rightarrow>
               (case mainloop_turns a envs (next_value a (st\<lparr>st_inbox := rest\<rparr>)) of
                  (t3, res) \<Rightarrow> (t1 @ t2 @ t3, res))))"

definition app_mainloop ::
  "app \<Rightarrow> frame_env list \<Rightarrow> pipe \<Rightarrow> event list \<times> (fatal + loop_state)" where
  "app_mainloop a envs inbox =
     mainloop_turns a envs
       \<lparr>st_output = 0, st_output_inc = 1, st_channel = 0, st_inbox = inbox\<rparr>"

text \<open>
  The controller branch of \<open>main\<close> from line 367 on: three \<open>app_recv\<close> calls, each
  \<open>uint32_t\<close> widened to \<open>size_t\<close>, then \<open>app_init_memories\<close> and \<open>app_mainloop\<close>.
\<close>

definition main_controller ::
  "app \<Rightarrow> bool \<Rightarrow> pipe \<Rightarrow> frame_env list \<Rightarrow> event list \<times> (fatal + loop_state)" where
  "main_controller a malloc_ok inbox envs =
     (case app_recv inbox of (t1, Inl e) \<Rightarrow> (t1, Inl e)
      | (t1, Inr (v1, in1)) \<Rightarrow>
     (case app_recv in1 of (t2, Inl e) \<Rightarrow> (t1 @ t2, Inl e)
      | (t2, Inr (v2, in2)) \<Rightarrow>
     (case app_recv in2 of (t3, Inl e) \<Rightarrow> (t1 @ t2 @ t3, Inl e)
      | (t3, Inr (v3, in3)) \<Rightarrow>
          let heap_skip = unat v1; usize = unat v2; osize = unat v3 in
          (case app_init_memories a malloc_ok heap_skip usize osize of
             Inl e \<Rightarrow> (t1 @ t2 @ t3, Inl e)
           | Inr a' \<Rightarrow>
               (case app_mainloop a' envs in3 of
                  (t4, res) \<Rightarrow> (t1 @ t2 @ t3 @ t4, res))))))"

text \<open>
  The ping-pong pattern of the spec, \<open>0, 1, ..., N-1, N-1, N-2, ..., 0, 1, 2, ...\<close>, as
  the index requested in turn \<open>k\<close> (turns count from 0): it repeats every \<open>2N - 1\<close> turns.
\<close>

definition pingpong :: "nat \<Rightarrow> nat \<Rightarrow> nat" where
  "pingpong N k = (let j = k mod (2 * N - 1) in if j < N then j else 2 * N - 1 - j)"

text \<open>
  What the loop variables hold at the start of turn \<open>k\<close>: the index of the pattern, and
  the direction (either one at the bottom of the pattern).
\<close>

definition at_turn :: "nat \<Rightarrow> nat \<Rightarrow> loop_state \<Rightarrow> bool" where
  "at_turn N k st =
     (st_output st = int (pingpong N k) \<and>
      (if k mod (2 * N - 1) = 0 then st_output_inc st = 1 \<or> st_output_inc st = - 1
       else if k mod (2 * N - 1) < N then st_output_inc st = 1
       else st_output_inc st = - 1))"

text \<open>The controller of the demo after \<open>app_init_memories\<close>: 64 outputs, coherent heap.\<close>

definition demo_app :: app where
  "demo_app =
     \<lparr>app_output_count = 64, app_heap_size = 8589934592, app_is_coherent = True,
      app_heap_base = 0x7f0000000000, app_img_size = 1440000,
      mems_ubo = 0x7f0000000000,
      mems_outputs = map (\<lambda>i. 0x7f0000001000 + i * 1441792) [0..<64]\<rparr>"

text \<open>
  A small controller for evaluation, after \<open>app_init_memories\<close>: two outputs of 33
  pixels (132 bytes) in slots of 4096 bytes, the heap mapped at \<open>0x10000\<close>.
\<close>

definition small_app :: "bool \<Rightarrow> app" where
  "small_app coherent =
     \<lparr>app_output_count = 2, app_heap_size = 12288, app_is_coherent = coherent,
      app_heap_base = 0x10000, app_img_size = 132, mems_ubo = 0x10000,
      mems_outputs = [0x11000, 0x12000]\<rparr>"

text \<open>A turn of the loop in which nothing fails and the renderer replies \<open>val\<close>.\<close>

definition reply_env :: "u32 \<Rightarrow> frame_env" where
  "reply_env val = \<lparr>fe_xcb_event = False, fe_send_ok = True, fe_arrived = [val]\<rparr>"

definition good_render_env :: render_env where
  "good_render_env = \<lparr>re_submit_ok = True, re_wait_ok = True, re_send_ok = True\<rparr>"

section \<open>main.c: the renderer token\<close>

text \<open>
  The C library calls, as far as the program uses them. \<open>fmt_d\<close> is what the
  conversion \<open>%d\<close> of \<open>snprintf\<close> prints for an \<open>int\<close>; \<open>snprintf\<close> gives the buffer (at
  most \<open>n - 1\<close> characters) and the length the full text has.
\<close>

definition digit_char :: "nat \<Rightarrow> char" where
  "digit_char d = char_of (48 + d)"

fun dec :: "nat \<Rightarrow> string" where
  "dec n = (if n < 10 then [digit_char n] else dec (n div 10) @ [digit_char (n mod 10)])"

declare dec.simps [simp del]

definition fmt_d :: "int \<Rightarrow> string" where
  "fmt_d i = (if i < 0 then CHR ''-'' # dec (nat (- i)) else dec (nat i))"

definition snprintf :: "nat \<Rightarrow> string \<Rightarrow> string \<times> nat" where
  "snprintf n text = (take (n - 1) text, length text)"

text \<open>
  The end of \<open>app_init_renderer\<close> (main.c, lines 116-130): the token is formatted into
  the 32-byte \<open>child_renderer\<close>, and the result is \<open>child_argv\<close> without its final \<open>NULL\<close>.
\<close>

definition app_init_renderer_argv ::
  "string \<Rightarrow> bool \<Rightarrow> int \<Rightarrow> int \<Rightarrow> int \<Rightarrow> fatal + string list" where
  "app_init_renderer_argv argv0 use_udmabuf child_in child_out child_memfd =
     (case snprintf 32 (''renderer-'' @ fmt_d child_in @ ''-'' @ fmt_d child_out @ ''-'' @
                        fmt_d child_memfd) of
        (child_renderer, ret) \<Rightarrow>
          if ret \<ge> 32 then Inl (App_fatal ''failed to format the renderer string'')
          else Inr [argv0, child_renderer, if use_udmabuf then ''udmabuf'' else ''memfd''])"

text \<open>
  The conversion \<open>%d\<close> of \<open>sscanf\<close>: white space is skipped, a sign is optional, and the
  longest run of decimal digits is the number; with no digit the conversion fails. A
  number outside the range of \<open>int\<close> has no defined result in C (\<open>Scan_undefined\<close>).
\<close>

definition isspace :: "char \<Rightarrow> bool" where
  "isspace c = ((of_char c :: nat) = 32 \<or> (9 \<le> (of_char c :: nat) \<and> (of_char c :: nat) \<le> 13))"

definition isdigit :: "char \<Rightarrow> bool" where
  "isdigit c = (48 \<le> (of_char c :: nat) \<and> (of_char c :: nat) \<le> 57)"

definition digit_val :: "char \<Rightarrow> nat" where
  "digit_val c = of_char c - 48"

definition digits_val :: "string \<Rightarrow> nat" where
  "digits_val ds = foldl (\<lambda>acc c. acc * 10 + digit_val c) 0 ds"

datatype scan = Scan_fail | Scan_undefined | Scan_ok int string

definition scan_d :: "string \<Rightarrow> scan" where
  "scan_d text =
     (let s1 = dropWhile isspace text;
          (neg, s2) = (case s1 of [] \<Rightarrow> (False, s1)
                       | c # t \<Rightarrow> if c = CHR ''-'' then (True, t)
                                  else if c = CHR ''+'' then (False, t) else (False, s1));
          ds = takeWhile isdigit s2;
          v = (if neg then - int (digits_val ds) else int (digits_val ds))
      in if ds = [] then Scan_fail
         else if v < - (2 ^ 31) \<or> 2 ^ 31 \<le> v then Scan_undefined
         else Scan_ok v (dropWhile isdigit s2))"

text \<open>
  \<open>sscanf\<close> with the format \<open>%d-%d-%d\<close>: the number of conversions made, and the
  values stored. A literal \<open>-\<close> of the format must match the next character. (Where the
  text ends before the first conversion C returns \<open>EOF\<close>; the program only tests for 3.)
\<close>

definition sscanf_d_d_d :: "string \<Rightarrow> fatal + nat \<times> int \<times> int \<times> int" where
  "sscanf_d_d_d text =
     (case scan_d text of
        Scan_fail \<Rightarrow> Inr (0, 0, 0, 0)
      | Scan_undefined \<Rightarrow> Inl Int_overflow
      | Scan_ok x r1 \<Rightarrow>
          (case r1 of [] \<Rightarrow> Inr (1, x, 0, 0)
           | c1 # t1 \<Rightarrow>
               if c1 \<noteq> CHR ''-'' then Inr (1, x, 0, 0)
               else (case scan_d t1 of
                  Scan_fail \<Rightarrow> Inr (1, x, 0, 0)
                | Scan_undefined \<Rightarrow> Inl Int_overflow
                | Scan_ok y r2 \<Rightarrow>
                    (case r2 of [] \<Rightarrow> Inr (2, x, y, 0)
                     | c2 # t2 \<Rightarrow>
                         if c2 \<noteq> CHR ''-'' then Inr (2, x, y, 0)
                         else (case scan_d t2 of
                            Scan_fail \<Rightarrow> Inr (2, x, y, 0)
                          | Scan_undefined \<Rightarrow> Inl Int_overflow
                          | Scan_ok z r3 \<Rightarrow> Inr (3, x, y, z))))))"

text \<open>
  The option loop of \<open>main\<close> (lines 327-348) over \<open>argv[1]\<close>, \<open>argv[2]\<close>, ...: the
  fields of \<open>app.config\<close> and of \<open>renderer_args\<close> that it sets.
\<close>

record main_args =
  ma_is_coherent :: bool
  ma_use_udmabuf :: bool
  ra_valid :: bool
  ra_ctrl_in :: int
  ra_ctrl_out :: int
  ra_memfd :: int
  ra_use_udmabuf :: bool

fun main_options :: "string list \<Rightarrow> main_args \<Rightarrow> fatal + main_args" where
  "main_options [] st = Inr st"
| "main_options (arg # args) st =
     (if take 9 arg = ''renderer-'' then
        (case sscanf_d_d_d (drop 9 arg) of
           Inl e \<Rightarrow> Inl e
         | Inr (n, x, y, z) \<Rightarrow>
             if n \<noteq> 3 then Inl (App_fatal ''invalid renderer args'')
             else main_options args
                    (st\<lparr>ra_valid := True, ra_ctrl_in := x, ra_ctrl_out := y, ra_memfd := z\<rparr>))
      else if arg = ''udmabuf'' then
        main_options args (st\<lparr>ma_use_udmabuf := True, ra_use_udmabuf := True\<rparr>)
      else if arg = ''memfd'' then
        main_options args (st\<lparr>ma_use_udmabuf := False, ra_use_udmabuf := False\<rparr>)
      else if arg = ''coherent'' then main_options args (st\<lparr>ma_is_coherent := True\<rparr>)
      else if arg = ''incoherent'' then main_options args (st\<lparr>ma_is_coherent := False\<rparr>)
      else Inl Usage_exit)"

text \<open>
  Which role \<open>main\<close> takes: the renderer with the descriptors of the token, or the
  controller with its two mode flags.
\<close>

datatype role = Renderer_role int int int bool | Controller_role bool bool

definition main_role :: "string list \<Rightarrow> fatal + role" where
  "main_role argv =
     (case main_options (tl argv)
             \<lparr>ma_is_coherent = True, ma_use_udmabuf = False, ra_valid = False,
              ra_ctrl_in = 0, ra_ctrl_out = 0, ra_memfd = 0, ra_use_udmabuf = False\<rparr> of
        Inl e \<Rightarrow> Inl e
      | Inr st \<Rightarrow>
          if ra_valid st
          then Inr (Renderer_role (ra_ctrl_in st) (ra_ctrl_out st) (ra_memfd st)
                      (ra_use_udmabuf st))
          else Inr (Controller_role (ma_is_coherent st) (ma_use_udmabuf st)))"

section \<open>Properties of the slot size\<close>

lemma unat_round_up:
  fixes reqs mem_align :: u64
  shows "unat (reqs - reqs mod mem_align + mem_align) =
         (unat reqs - unat reqs mod unat mem_align + unat mem_align) mod 2 ^ 64"
proof -
  have le: "reqs mod mem_align \<le> reqs"
    by (simp add: word_le_nat_alt unat_mod)
  have s: "unat (reqs - reqs mod mem_align) = unat reqs - unat (reqs mod mem_align)"
    using le by (rule unat_sub)
  have m: "unat (reqs mod mem_align) = unat reqs mod unat mem_align"
    by (rule unat_mod_distrib)
  have "unat (reqs - reqs mod mem_align + mem_align) =
        (unat (reqs - reqs mod mem_align) + unat mem_align) mod 2 ^ LENGTH(64)"
    by (rule unat_word_ariths(1))
  then show ?thesis
    by (simp add: s m)
qed

lemma round_up_aligned_size_spec:
  fixes reqs mem_align :: u64
  assumes a: "mem_align \<noteq> 0" and r: "reqs mod mem_align \<noteq> 0"
  shows "unat (reqs - reqs mod mem_align + mem_align) =
         aligned_size_spec (unat reqs) (unat mem_align) mod 2 ^ 64"
proof -
  have pos: "0 < unat mem_align" using a by (simp add: unat_gt_0)
  have nz: "unat reqs mod unat mem_align \<noteq> 0"
    using r by (metis unat_mod unat_eq_zero)
  have lt: "unat reqs mod unat mem_align < unat mem_align" using pos by simp
  have le: "unat reqs mod unat mem_align \<le> unat reqs" by simp
  have "unat reqs - unat reqs mod unat mem_align + unat mem_align
        = unat reqs + (unat mem_align - unat reqs mod unat mem_align)"
    using lt le by arith
  then show ?thesis using nz by (simp add: unat_round_up aligned_size_spec_def)
qed

lemma aligned_size_spec_fixed:
  fixes sz mem_align :: u64
  assumes "sz mod mem_align = 0"
  shows "unat sz = aligned_size_spec (unat sz) (unat mem_align) mod 2 ^ 64"
proof -
  have "unat sz mod unat mem_align = 0"
    using assms by (metis unat_mod unat_eq_zero)
  moreover have "unat sz < 2 ^ 64" using unsigned_less [of sz] by simp
  ultimately show ?thesis by (simp add: aligned_size_spec_def)
qed

text \<open>What a successful call of \<open>renderer_get_heap_buffer_props\<close> has gone through.\<close>

lemma get_props_Inr:
  assumes "renderer_get_heap_buffer_props dev ht sz usg mem_align = Inr alloc"
  shows "\<exists>reqs. importable dev usg ht \<and> buffer_reqs_size dev usg ht sz = Some reqs \<and>
           mem_align \<noteq> 0 \<and>
           (if reqs mod mem_align = 0 then alloc = sz
            else \<not> dedicated_only dev usg ht \<and>
                 alloc = reqs - reqs mod mem_align + mem_align)"
proof (cases "buffer_reqs_size dev usg ht sz")
  case None
  with assms show ?thesis
    by (simp add: renderer_get_heap_buffer_props_def split: if_splits)
next
  case (Some reqs)
  with assms show ?thesis
    by (simp add: renderer_get_heap_buffer_props_def Let_def split: if_splits)
qed

text \<open>
  C1, as the code has it. When the size the device requires for the buffer is not a
  multiple of the alignment, the slot size is that required size rounded up to the next
  multiple of the alignment, as a 64-bit value. When the device requires exactly the
  nominal size, the slot size is the spec's \<open>aligned_size\<close> of the nominal size.
\<close>

theorem slot_size_rounds_required_size:
  assumes ok: "renderer_get_heap_buffer_props dev ht sz usg mem_align = Inr alloc"
    and rq: "buffer_reqs_size dev usg ht sz = Some reqs"
  shows "(reqs mod mem_align \<noteq> 0 \<longrightarrow>
            unat alloc = aligned_size_spec (unat reqs) (unat mem_align) mod 2 ^ 64) \<and>
         (reqs = sz \<longrightarrow>
            unat alloc = aligned_size_spec (unat sz) (unat mem_align) mod 2 ^ 64)"
proof -
  from get_props_Inr [OF ok] rq have al: "mem_align \<noteq> 0"
    and eq: "if reqs mod mem_align = 0 then alloc = sz
             else alloc = reqs - reqs mod mem_align + mem_align"
    by (auto split: if_splits)
  have one: "unat alloc = aligned_size_spec (unat reqs) (unat mem_align) mod 2 ^ 64"
    if "reqs mod mem_align \<noteq> 0"
    using eq al that by (simp add: round_up_aligned_size_spec)
  have two: "unat alloc = aligned_size_spec (unat sz) (unat mem_align) mod 2 ^ 64"
    if "reqs = sz"
  proof (cases "reqs mod mem_align = 0")
    case True
    with eq have "alloc = sz" by simp
    moreover from True that have "sz mod mem_align = 0" by simp
    ultimately show ?thesis by (simp only: aligned_size_spec_fixed [symmetric])
  next
    case False
    with one that show ?thesis by simp
  qed
  from one two show ?thesis by blast
qed

text \<open>
  The theorem at a device that requires the nominal 16 bytes for the uniform buffer, with
  an alignment of 4096: the slot is one page.
\<close>

theorem slot_size_rounds_required_size_witness:
  "renderer_get_heap_buffer_props (device_of False 16 1440000 4096) HOST_ALLOCATION
      16 UNIFORM_BUFFER 4096 = Inr 4096 \<and>
   unat (4096 :: u64) = aligned_size_spec (unat (16 :: u64)) (unat (4096 :: u64)) mod 2 ^ 64"
proof -
  have run: "renderer_get_heap_buffer_props (device_of False 16 1440000 4096) HOST_ALLOCATION
      16 UNIFORM_BUFFER 4096 = Inr 4096"
    by (simp add: renderer_get_heap_buffer_props_def device_of_def)
  have rq: "buffer_reqs_size (device_of False 16 1440000 4096) UNIFORM_BUFFER HOST_ALLOCATION 16
      = Some 16"
    by (simp add: device_of_def)
  from slot_size_rounds_required_size [OF run rq] run show ?thesis by simp
qed

text \<open>
  C1 as the spec words it fails: a device that requires 96 bytes for the 16-byte uniform
  buffer, alignment 64. The code pads the required size to 128; \<open>aligned_size\<close> of the
  nominal size is 64.
\<close>

theorem slot_size_counterexample:
  "renderer_get_heap_buffer_props (device_of False 96 1440000 64) HOST_ALLOCATION
      16 UNIFORM_BUFFER 64 = Inr 128 \<and>
   aligned_size_spec (unat (16 :: u64)) (unat (64 :: u64)) = 64 \<and>
   unat (128 :: u64) \<noteq> aligned_size_spec (unat (16 :: u64)) (unat (64 :: u64))"
  by (simp add: renderer_get_heap_buffer_props_def device_of_def aligned_size_spec_def)




section \<open>Properties of the layout\<close>

text \<open>
  The \<open>base_skip\<close> of an accepted layout: zero under the udmabuf path; under the
  host-pointer path below the alignment, and what is missing from the mapped base
  address to the next multiple of the alignment.
\<close>

lemma base_skip_udmabuf:
  assumes "renderer_init_heap_layout dev r = Inr l" and "config_use_udmabuf r"
  shows "hl_base_skip l = 0 \<and> hl_handle_type l = DMA_BUF"
  using assms
  by (auto simp: renderer_init_heap_layout_def split: sum.splits if_splits)

lemma base_skip_host_pointer:
  assumes ok: "renderer_init_heap_layout dev r = Inr l" and host: "\<not> config_use_udmabuf r"
  shows "hl_base_skip l < min_host_align dev \<and>
         unat (hl_base_skip l) =
           (unat (min_host_align dev) - unat (heap_base r) mod unat (min_host_align dev))
             mod unat (min_host_align dev)"
proof -
  let ?a = "min_host_align dev" and ?rem = "heap_base r mod min_host_align dev"
  from ok host have nz: "?a \<noteq> 0"
    by (auto simp: renderer_init_heap_layout_def Let_def split: sum.splits if_splits)
  from ok host nz have skip: "hl_base_skip l = (if ?rem \<noteq> 0 then ?a - ?rem else 0)"
    by (auto simp: renderer_init_heap_layout_def Let_def split: sum.splits if_splits)
  have pos: "0 < unat ?a" using nz by (simp add: unat_gt_0)
  have rem: "unat ?rem = unat (heap_base r) mod unat ?a" by (rule unat_mod_distrib)
  have lt: "unat ?rem < unat ?a" using pos by (simp add: rem)
  have le: "?rem \<le> ?a" using lt by (simp add: word_le_nat_alt)
  have sub: "unat (?a - ?rem) = unat ?a - unat ?rem" using le by (rule unat_sub)
  show ?thesis
  proof (cases "?rem = 0")
    case True
    then have "unat (heap_base r) mod unat ?a = 0" using rem by simp
    with True skip nz show ?thesis by (simp add: word_neq_0_conv)
  next
    case False
    then have r0: "0 < unat ?rem" by (simp add: unat_gt_0)
    have "unat (hl_base_skip l) = unat ?a - unat ?rem" using False skip sub by simp
    moreover have "unat ?a - unat ?rem < unat ?a" using r0 lt by arith
    ultimately show ?thesis by (simp add: word_less_nat_alt rem)
  qed
qed

text \<open>
  A slot size is a multiple of the alignment when the device requires the nominal size
  or a size that is not aligned, and the padded size fits 64 bits.
\<close>

lemma slot_multiple_of_alignment:
  assumes ok: "renderer_get_heap_buffer_props dev ht sz usg mem_align = Inr alloc"
    and rq: "buffer_reqs_size dev usg ht sz = Some reqs"
    and exact: "reqs = sz \<or> reqs mod mem_align \<noteq> 0"
    and fits: "unat reqs + unat mem_align < 2 ^ 64"
  shows "unat mem_align dvd unat alloc"
proof -
  from get_props_Inr [OF ok] rq have al: "mem_align \<noteq> 0"
    and eq: "if reqs mod mem_align = 0 then alloc = sz
             else alloc = reqs - reqs mod mem_align + mem_align"
    by (auto split: if_splits)
  have m: "unat (reqs mod mem_align) = unat reqs mod unat mem_align"
    by (rule unat_mod_distrib)
  show ?thesis
  proof (cases "reqs mod mem_align = 0")
    case True
    with exact eq have "alloc = reqs" by auto
    moreover from True m have "unat reqs mod unat mem_align = 0" by simp
    ultimately show ?thesis by (simp add: mod_eq_0_iff_dvd)
  next
    case False
    let ?n = "unat reqs" and ?a = "unat mem_align"
    have le: "?n - ?n mod ?a + ?a \<le> ?n + ?a" by simp
    from False eq have "unat alloc = (?n - ?n mod ?a + ?a) mod 2 ^ 64"
      by (simp add: unat_round_up)
    also have "\<dots> = ?n - ?n mod ?a + ?a" using le fits by simp
    finally have "unat alloc = ?n div ?a * ?a + ?a"
      by (simp add: minus_mod_eq_div_mult)
    then show ?thesis by simp
  qed
qed

text \<open>
  C3 at a device that rounds what it requires up to pages of 4096 bytes (4096 bytes for
  the uniform buffer, 1441792 for an output) and is not dedicated-only. The required
  sizes are multiples of the alignment, so the code takes the branch that stores the
  nominal size: both slots come out unaligned, 16 and 1440000 bytes.
\<close>

theorem layout_slot_not_aligned:
  "renderer_init_heap_layout (device_of False 4096 1441792 4096)
      (renderer_of 64 8589934592 0x7f0000000000) =
     Inr \<lparr>hl_base_skip = 0, hl_ubo_size = 16, hl_output_size = 1440000,
          hl_handle_type = HOST_ALLOCATION, hl_ubo_used_size = 16,
          hl_output_used_size = 1440000\<rparr> \<and>
   (16 :: u64) mod 4096 \<noteq> 0 \<and> (1440000 :: u64) mod 4096 \<noteq> 0 \<and>
   \<not> dedicated_only (device_of False 4096 1441792 4096) UNIFORM_BUFFER HOST_ALLOCATION \<and>
   \<not> dedicated_only (device_of False 4096 1441792 4096) TRANSFER_DST HOST_ALLOCATION"
  by (simp add: renderer_init_heap_layout_def renderer_get_heap_buffer_props_def
      device_of_def renderer_of_def int_mul_def)

text \<open>What the final test of \<open>renderer_init_heap_layout\<close> does establish.\<close>

lemma layout_checked_without_skip:
  assumes "renderer_init_heap_layout dev r = Inr l"
  shows "hl_ubo_size l + hl_output_size l * word_of_int (config_output_count r) \<le> heap_size r"
  using assms
  by (auto simp: renderer_init_heap_layout_def Let_def split: sum.splits if_splits)

text \<open>
  C2 at a heap mapped at a page boundary that is not a multiple of the 64 KiB alignment
  of the device: \<open>base_skip\<close> is 61440, and the heap holds exactly the uniform slot and
  the 64 output slots. The layout is accepted although it ends 61440 bytes past the heap.
\<close>

theorem layout_accepts_beyond_heap:
  "renderer_init_heap_layout (device_of False 16 1440000 65536)
      (renderer_of 64 92340224 0x7f0000001000) =
     Inr \<lparr>hl_base_skip = 61440, hl_ubo_size = 65536, hl_output_size = 1441792,
          hl_handle_type = HOST_ALLOCATION, hl_ubo_used_size = 16,
          hl_output_used_size = 1440000\<rparr> \<and>
   unat (heap_size (renderer_of 64 92340224 0x7f0000001000)) <
     unat (61440 :: u64) + unat (65536 :: u64) + 64 * unat (1441792 :: u64)"
  by (simp add: renderer_init_heap_layout_def renderer_get_heap_buffer_props_def
      device_of_def renderer_of_def int_mul_def)

text \<open>
  The controller's own test in \<open>app_init_memories\<close> does count \<open>heap_skip\<close>: what it
  accepts lies inside its heap, and its pointers follow the layout.
\<close>

lemma output_pointers_eq:
  "output_pointers n ptr osize = (map (\<lambda>i. ptr + i * osize) [0..<n], ptr + n * osize)"
proof (induction n arbitrary: ptr)
  case 0
  show ?case by simp
next
  case (Suc n)
  have "[0..<Suc n] = 0 # map Suc [0..<n]"
    by (simp add: upt_conv_Cons map_Suc_upt del: upt_Suc)
  then have "map (\<lambda>i. ptr + i * osize) [0..<Suc n] =
        ptr # map (\<lambda>i. ptr + osize + i * osize) [0..<n]"
    by (simp add: comp_def add.assoc del: upt_Suc)
  then show ?case
    by (simp add: Suc.IH add.assoc del: upt_Suc)
qed

lemma app_init_memories_Inr:
  assumes "app_init_memories a malloc_ok heap_skip usize osize = Inr a'"
  shows "heap_skip + usize + nat (app_output_count a) * osize \<le> app_heap_size a \<and>
         16 \<le> usize \<and> app_img_size a \<le> osize \<and>
         mems_ubo a' = app_heap_base a + heap_skip \<and>
         mems_outputs a' =
           map (\<lambda>i. app_heap_base a + heap_skip + usize + i * osize)
             [0..<nat (app_output_count a)]"
proof -
  obtain ps p where op: "output_pointers (nat (app_output_count a))
      (app_heap_base a + heap_skip + usize) osize = (ps, p)"
    by (cases "output_pointers (nat (app_output_count a))
      (app_heap_base a + heap_skip + usize) osize")
  from op have p: "p = app_heap_base a + heap_skip + usize + nat (app_output_count a) * osize"
    and ps: "ps = map (\<lambda>i. app_heap_base a + heap_skip + usize + i * osize)
             [0..<nat (app_output_count a)]"
    by (simp_all add: output_pointers_eq)
  from assms op show ?thesis
    by (auto simp: app_init_memories_def Let_def p ps split: if_splits)
qed

text \<open>
  So the layout that the renderer accepted above is refused on the other side: a
  controller with the same heap aborts when it has read the three values.
\<close>

lemma controller_rejects_beyond_heap:
  "main_controller (demo_app\<lparr>app_heap_size := 92340224, app_heap_base := 0x7f0000001000\<rparr>)
      True [61440, 65536, 1441792] envs =
     ([Recv 61440, Recv 65536, Recv 1441792], Inl (App_fatal ''heap size too small''))"
  by (simp add: main_controller_def app_recv_def app_init_memories_def output_pointers_eq
      demo_app_def Let_def del: upt_Suc)

section \<open>Properties of the coherency emulation\<close>

lemma lines_step:
  fixes d :: nat
  assumes "0 < d"
  shows "(d + 63) div 64 = Suc ((d - 64 + 63) div 64)"
proof (cases "d < 64")
  case True
  then have "d - 64 + 63 = 63" by simp
  moreover have "(d + 63) div 64 = 1"
  proof -
    have "d + 63 = 64 + (d - 1)" using assms by simp
    moreover have "(d - 1) div 64 = 0" using True by simp
    ultimately show ?thesis by simp
  qed
  ultimately show ?thesis by simp
next
  case False
  then have "d + 63 = (d - 64 + 63) + 64" by simp
  then have "(d + 63) div 64 = (d - 64 + 63 + 64) div 64" by simp
  also have "\<dots> = (d - 64 + 63) div 64 + 1" by (rule div_add_self2) simp
  finally show ?thesis by simp
qed

text \<open>The loop issues one \<open>clflush\<close> for every 64 bytes begun between \<open>ptr\<close> and \<open>e\<close>.\<close>

lemma clflush_loop_eq:
  "clflush_loop ptr e = map (\<lambda>k. Clflush (ptr + 64 * k)) [0..<(e - ptr + 63) div 64]"
proof (induction ptr e rule: clflush_loop.induct)
  case (1 ptr e)
  show ?case
  proof (cases "ptr < e")
    case False
    then have "(e - ptr + 63) div 64 = 0" by simp
    moreover from False have "clflush_loop ptr e = []"
      by (subst clflush_loop.simps) simp
    ultimately show ?thesis by simp
  next
    case True
    let ?n = "(e - (ptr + 64) + 63) div 64"
    from True have "0 < e - ptr" by simp
    from lines_step [OF this] have n: "(e - ptr + 63) div 64 = Suc ?n"
      by simp
    have u: "[0..<Suc ?n] = 0 # map Suc [0..<?n]"
      by (simp add: upt_conv_Cons map_Suc_upt del: upt_Suc)
    have m: "map (\<lambda>k. Clflush (ptr + 64 * k)) [0..<Suc ?n] =
        Clflush ptr # map (\<lambda>k. Clflush (ptr + 64 + 64 * k)) [0..<?n]"
      unfolding u by (simp add: comp_def add.assoc)
    from True have "clflush_loop ptr e = Clflush ptr # clflush_loop (ptr + 64) e"
      by (subst clflush_loop.simps) simp
    also have "clflush_loop (ptr + 64) e =
        map (\<lambda>k. Clflush (ptr + 64 + 64 * k)) [0..<?n]"
      using "1.IH" [OF True] .
    finally show ?thesis unfolding n m .
  qed
qed

lemma render_frame_trace:
  "\<exists>t. fst (app_render_frame a i send_ok inbox) =
      Write_ubo (mems_ubo a) #
        (if \<not> app_is_coherent a then [Mfence, Clflush (mems_ubo a)] else []) @ t \<and>
      filter is_cache_op t = []"
  by (cases inbox) (simp_all add: app_render_frame_def app_send_def app_recv_def Let_def)

lemma render_frame_coherent:
  "app_is_coherent a \<Longrightarrow> filter is_cache_op (fst (app_render_frame a i send_ok inbox)) = []"
  using render_frame_trace [of a i send_ok inbox] by auto

lemma present_frame_coherent:
  "app_is_coherent a \<Longrightarrow> filter is_cache_op (fst (app_present_frame a i)) = []"
  by (simp add: app_present_frame_def Let_def)

lemma mainloop_coherent:
  "app_is_coherent a \<Longrightarrow> filter is_cache_op (fst (mainloop_turns a envs st)) = []"
proof (induction envs arbitrary: st)
  case Nil
  show ?case by simp
next
  case (Cons env envs)
  obtain t1 r1 where rf: "app_render_frame a (st_output st) (fe_send_ok env)
        (st_inbox st @ fe_arrived env) = (t1, r1)" by (cases "app_render_frame a (st_output st) (fe_send_ok env)
        (st_inbox st @ fe_arrived env)")
  obtain t2 r2 where pf: "app_present_frame a (st_output st) = (t2, r2)"
    by (cases "app_present_frame a (st_output st)")
  have c1: "filter is_cache_op t1 = []"
    using render_frame_coherent [OF Cons.prems, of "st_output st" "fe_send_ok env"
        "st_inbox st @ fe_arrived env"] rf by simp
  have c2: "filter is_cache_op t2 = []"
    using present_frame_coherent [OF Cons.prems, of "st_output st"] pf by simp
  show ?case
  proof (cases r1)
    case (Inl e)
    with rf c1 show ?thesis by simp
  next
    case (Inr rest)
    note r1 = this
    show ?thesis
    proof (cases r2)
      case (Inl e)
      with rf pf r1 c1 c2 show ?thesis by simp
    next
      case (Inr u)
      obtain t3 r3 where ml: "mainloop_turns a envs (next_value a (st\<lparr>st_inbox := rest\<rparr>))
          = (t3, r3)"
        by (cases "mainloop_turns a envs (next_value a (st\<lparr>st_inbox := rest\<rparr>))")
      have c3: "filter is_cache_op t3 = []"
        using Cons.IH [OF Cons.prems, of "next_value a (st\<lparr>st_inbox := rest\<rparr>)"] ml by simp
      from rf pf r1 Inr ml c1 c2 c3 show ?thesis by simp
    qed
  qed
qed

text \<open>
  C4. Under the incoherent assumption \<open>app_render_frame\<close> starts with the write of the
  uniform region, one \<open>mfence\<close> and one \<open>clflush\<close> of it, and issues no other cache
  call; \<open>app_present_frame\<close> issues one \<open>clflush\<close> per 64 bytes of the image, that is
  \<open>(img_size + 63) div 64\<close> of them, then one \<open>mfence\<close>, and only then reads the output
  region. Under the coherent assumption neither function, nor any number of turns of
  the main loop, issues a cache call.
\<close>

theorem coherency_emulation_calls:
  "(\<not> app_is_coherent a \<longrightarrow>
      take 3 (fst (app_render_frame a i send_ok inbox)) =
        [Write_ubo (mems_ubo a), Mfence, Clflush (mems_ubo a)] \<and>
      filter is_cache_op (drop 3 (fst (app_render_frame a i send_ok inbox))) = [] \<and>
      (0 \<le> i \<and> i < int (length (mems_outputs a)) \<longrightarrow>
         fst (app_present_frame a i) =
           map (\<lambda>k. Clflush (mems_outputs a ! nat i + 64 * k))
             [0..<(app_img_size a + 63) div 64]
           @ [Mfence, Put_image (mems_outputs a ! nat i)])) \<and>
   (app_is_coherent a \<longrightarrow>
      filter is_cache_op (fst (app_render_frame a i send_ok inbox)) = [] \<and>
      filter is_cache_op (fst (app_present_frame a i)) = [] \<and>
      filter is_cache_op (fst (mainloop_turns a envs st)) = [])"
proof (intro conjI impI)
  assume inc: "\<not> app_is_coherent a"
  from render_frame_trace [of a i send_ok inbox] inc
  obtain t where t: "fst (app_render_frame a i send_ok inbox) =
      Write_ubo (mems_ubo a) # Mfence # Clflush (mems_ubo a) # t"
    and nt: "filter is_cache_op t = []" by auto
  from t show "take 3 (fst (app_render_frame a i send_ok inbox)) =
        [Write_ubo (mems_ubo a), Mfence, Clflush (mems_ubo a)]" by simp
  from t nt show "filter is_cache_op (drop 3 (fst (app_render_frame a i send_ok inbox))) = []"
    by simp
  assume "0 \<le> i \<and> i < int (length (mems_outputs a))"
  with inc show "fst (app_present_frame a i) =
           map (\<lambda>k. Clflush (mems_outputs a ! nat i + 64 * k))
             [0..<(app_img_size a + 63) div 64]
           @ [Mfence, Put_image (mems_outputs a ! nat i)]"
    by (simp add: app_present_frame_def Let_def clflush_loop_eq)
next
  assume "app_is_coherent a"
  then show "filter is_cache_op (fst (app_render_frame a i send_ok inbox)) = []"
    by (rule render_frame_coherent)
next
  assume "app_is_coherent a"
  then show "filter is_cache_op (fst (app_present_frame a i)) = []"
    by (rule present_frame_coherent)
next
  assume "app_is_coherent a"
  then show "filter is_cache_op (fst (mainloop_turns a envs st)) = []"
    by (rule mainloop_coherent)
qed

text \<open>
  The theorem at the small controller: a 132-byte image takes three \<open>clflush\<close> calls.
\<close>

theorem coherency_emulation_calls_witness:
  "\<not> app_is_coherent (small_app False) \<and>
   take 3 (fst (app_render_frame (small_app False) 1 True [1])) =
     [Write_ubo 0x10000, Mfence, Clflush 0x10000] \<and>
   filter is_cache_op (drop 3 (fst (app_render_frame (small_app False) 1 True [1]))) = [] \<and>
   fst (app_present_frame (small_app False) 1) =
     [Clflush 0x12000, Clflush 0x12040, Clflush 0x12080, Mfence, Put_image 0x12000] \<and>
   app_is_coherent (small_app True) \<and>
   filter is_cache_op (fst (app_render_frame (small_app True) 1 True [1])) = [] \<and>
   filter is_cache_op (fst (app_present_frame (small_app True) 1)) = [] \<and>
   filter is_cache_op
     (fst (mainloop_turns (small_app True) [reply_env 0, reply_env 1]
        \<lparr>st_output = 0, st_output_inc = 1, st_channel = 0, st_inbox = []\<rparr>)) = []"
proof -
  let ?st = "\<lparr>st_output = 0, st_output_inc = 1, st_channel = 0, st_inbox = []\<rparr>"
  have inc: "\<not> app_is_coherent (small_app False)" and coh: "app_is_coherent (small_app True)"
    by (simp_all add: small_app_def)
  have idx: "(0::int) \<le> 1 \<and> (1::int) < int (length (mems_outputs (small_app False)))"
    by (simp add: small_app_def)
  have ubo: "[Write_ubo (mems_ubo (small_app False)), Mfence,
              Clflush (mems_ubo (small_app False))] =
             [Write_ubo 0x10000, Mfence, Clflush 0x10000]"
    by (simp add: small_app_def)
  have three: "[0..<3::nat] = [0, 1, 2]" by (simp add: upt_rec)
  have lines: "map (\<lambda>k. Clflush (mems_outputs (small_app False) ! nat 1 + 64 * k))
             [0..<(app_img_size (small_app False) + 63) div 64]
           @ [Mfence, Put_image (mems_outputs (small_app False) ! nat 1)] =
     [Clflush 0x12000, Clflush 0x12040, Clflush 0x12080, Mfence, Put_image 0x12000]"
    by (simp add: small_app_def three)
  from coherency_emulation_calls [of "small_app False" 1 True "[1]"] inc idx
  have A: "take 3 (fst (app_render_frame (small_app False) 1 True [1])) =
        [Write_ubo (mems_ubo (small_app False)), Mfence, Clflush (mems_ubo (small_app False))]"
    and B: "filter is_cache_op (drop 3 (fst (app_render_frame (small_app False) 1 True [1]))) = []"
    and C: "fst (app_present_frame (small_app False) 1) =
           map (\<lambda>k. Clflush (mems_outputs (small_app False) ! nat 1 + 64 * k))
             [0..<(app_img_size (small_app False) + 63) div 64]
           @ [Mfence, Put_image (mems_outputs (small_app False) ! nat 1)]"
    by blast+
  from coherency_emulation_calls [of "small_app True" 1 True "[1]"
         "[reply_env 0, reply_env 1]" ?st] coh
  have D: "filter is_cache_op (fst (app_render_frame (small_app True) 1 True [1])) = []"
    and E: "filter is_cache_op (fst (app_present_frame (small_app True) 1)) = []"
    and F: "filter is_cache_op
     (fst (mainloop_turns (small_app True) [reply_env 0, reply_env 1] ?st)) = []"
    by blast+
  from inc coh A [unfolded ubo] B C [unfolded lines] D E F show ?thesis by blast
qed

section \<open>Properties of the frame exchange\<close>

text \<open>A turn of the renderer that completes has replied with the word it read.\<close>

lemma renderer_frame_Inr:
  assumes "renderer_frame r env inp outp = Inr (inp', outp')"
  shows "\<exists>val. inp = val # inp' \<and> outp' = outp @ [val] \<and>
               0 \<le> sint val \<and> sint val < config_output_count r"
  using assms
  by (cases inp)
     (auto simp: renderer_frame_def renderer_recv_def renderer_render_def renderer_send_def
        Let_def split: if_splits)

lemma renderer_mainloop_Inr:
  "renderer_mainloop r envs inp outp = Inr (inp', outp') \<Longrightarrow>
     \<exists>vals. inp = vals @ inp' \<and> outp' = outp @ vals \<and> length vals = length envs"
proof (induction envs arbitrary: inp outp)
  case Nil
  then show ?case by simp
next
  case (Cons env envs)
  from Cons.prems obtain inp1 outp1 where
    f: "renderer_frame r env inp outp = Inr (inp1, outp1)" and
    l: "renderer_mainloop r envs inp1 outp1 = Inr (inp', outp')"
    by (auto split: sum.splits)
  from renderer_frame_Inr [OF f] obtain val where
    v: "inp = val # inp1" "outp1 = outp @ [val]" by blast
  from Cons.IH [OF l] obtain vals where
    vs: "inp1 = vals @ inp'" "outp' = outp1 @ vals" "length vals = length envs" by blast
  from v vs have "inp = (val # vals) @ inp' \<and> outp' = outp @ (val # vals) \<and>
      length (val # vals) = length (env # envs)" by simp
  then show ?case by blast
qed

text \<open>
  C5. A turn of the renderer that completes appends to the reply channel exactly the
  word it took from the request channel, and so does every run of turns. The controller,
  once its request is written and a reply is read, aborts if and only if the reply
  differs from the request (as \<open>uint32_t\<close>), with \<open>unexpected renderer output\<close>; with
  an equal reply it goes on. Fed with the renderer's reply to its own request, it goes on.
\<close>

theorem frame_reply_echoes_request:
  "(\<forall>inp' outp'. renderer_frame r env inp outp = Inr (inp', outp') \<longrightarrow>
      (\<exists>val. inp = val # inp' \<and> outp' = outp @ [val])) \<and>
   (\<forall>inp' outp'. renderer_mainloop r envs inp outp = Inr (inp', outp') \<longrightarrow>
      (\<exists>vals. inp = vals @ inp' \<and> outp' = outp @ vals \<and> length vals = length envs)) \<and>
   isl (snd (app_render_frame a i True (reply # rest))) = (reply \<noteq> word_of_int i) \<and>
   (reply \<noteq> word_of_int i \<longrightarrow>
      snd (app_render_frame a i True (reply # rest)) =
        Inl (App_fatal ''unexpected renderer output'')) \<and>
   (reply = word_of_int i \<longrightarrow> snd (app_render_frame a i True (reply # rest)) = Inr rest) \<and>
   (\<forall>inp' outp'. renderer_frame r env [word_of_int i] [] = Inr (inp', outp') \<longrightarrow>
      snd (app_render_frame a i True outp') = Inr [])"
proof (intro conjI allI impI)
  fix inp' outp'
  assume "renderer_frame r env inp outp = Inr (inp', outp')"
  from renderer_frame_Inr [OF this]
  show "\<exists>val. inp = val # inp' \<and> outp' = outp @ [val]" by blast
next
  fix inp' outp'
  assume "renderer_mainloop r envs inp outp = Inr (inp', outp')"
  then show "\<exists>vals. inp = vals @ inp' \<and> outp' = outp @ vals \<and> length vals = length envs"
    by (rule renderer_mainloop_Inr)
next
  show "isl (snd (app_render_frame a i True (reply # rest))) = (reply \<noteq> word_of_int i)"
    by (simp add: app_render_frame_def app_send_def app_recv_def Let_def)
next
  assume "reply \<noteq> word_of_int i"
  then show "snd (app_render_frame a i True (reply # rest)) =
        Inl (App_fatal ''unexpected renderer output'')"
    by (simp add: app_render_frame_def app_send_def app_recv_def Let_def)
next
  assume "reply = word_of_int i"
  then show "snd (app_render_frame a i True (reply # rest)) = Inr rest"
    by (simp add: app_render_frame_def app_send_def app_recv_def Let_def)
next
  fix inp' outp'
  assume "renderer_frame r env [word_of_int i] [] = Inr (inp', outp')"
  from renderer_frame_Inr [OF this] have "outp' = [word_of_int i]" by auto
  then show "snd (app_render_frame a i True outp') = Inr []"
    by (simp add: app_render_frame_def app_send_def app_recv_def Let_def)
qed

text \<open>
  The theorem at the renderer of the demo and the small controller: requests 5 and 6
  are echoed; a reply 0 to request 1 is fatal, a reply 1 is accepted.
\<close>

theorem frame_reply_echoes_request_witness:
  "renderer_frame (renderer_of 64 8589934592 0) good_render_env [5, 6] [] = Inr ([6], [5]) \<and>
   renderer_mainloop (renderer_of 64 8589934592 0) [good_render_env, good_render_env]
      [5, 6] [] = Inr ([], [5, 6]) \<and>
   snd (app_render_frame (small_app True) 1 True [0, 7]) =
      Inl (App_fatal ''unexpected renderer output'') \<and>
   snd (app_render_frame (small_app True) 1 True [1, 7]) = Inr [7] \<and>
   snd (app_render_frame (small_app True) 5 True [5]) = Inr []"
proof -
  let ?r = "renderer_of 64 8589934592 0"
  have f: "renderer_frame ?r good_render_env [5, 6] [] = Inr ([6], [5])"
    by (simp add: renderer_frame_def renderer_recv_def renderer_render_def renderer_send_def
        renderer_of_def good_render_env_def)
  have f6: "renderer_frame ?r good_render_env [6] [5] = Inr ([], [5, 6])"
    by (simp add: renderer_frame_def renderer_recv_def renderer_render_def renderer_send_def
        renderer_of_def good_render_env_def)
  have l: "renderer_mainloop ?r [good_render_env, good_render_env] [5, 6] [] = Inr ([], [5, 6])"
    by (simp add: f f6)
  have f5: "renderer_frame ?r good_render_env [word_of_int 5] [] = Inr ([], [5])"
    by (simp add: renderer_frame_def renderer_recv_def renderer_render_def renderer_send_def
        renderer_of_def good_render_env_def)
  have ne: "(0 :: u32) \<noteq> word_of_int 1" and eq: "(1 :: u32) = word_of_int 1" by simp_all
  from frame_reply_echoes_request [of ?r good_render_env "[5, 6]" "[]"
          "[good_render_env, good_render_env]" "small_app True" 1 0 "[7]"] ne
       frame_reply_echoes_request [of ?r good_render_env "[5, 6]" "[]"
          "[good_render_env, good_render_env]" "small_app True" 1 1 "[7]"] eq
       frame_reply_echoes_request [of ?r good_render_env "[5, 6]" "[]"
          "[good_render_env, good_render_env]" "small_app True" 5 1 "[7]"] f5
       f l
  show ?thesis by simp
qed

section \<open>Properties of the main loop\<close>

text \<open>The closed form is the pattern: up, down from the repeated top, and periodic.\<close>

lemma pingpong_less: "0 < N \<Longrightarrow> pingpong N k < N"
  by (auto simp: pingpong_def Let_def)

lemma pingpong_pattern:
  "(k < N \<longrightarrow> pingpong N k = k) \<and>
   (N \<le> k \<and> k < 2 * N - 1 \<longrightarrow> pingpong N k = 2 * N - 1 - k) \<and>
   pingpong N (k + (2 * N - 1)) = pingpong N k"
  by (auto simp: pingpong_def Let_def)

text \<open>The end of the loop body takes the variables of turn \<open>k\<close> to those of turn \<open>k + 1\<close>.\<close>

lemma next_value_at_turn:
  assumes N: "2 \<le> N" and cnt: "app_output_count a = int N" and inv: "at_turn N k st"
  shows "at_turn N (Suc k) (next_value a st)"
proof -
  define P where "P = 2 * N - 1"
  define j where "j = k mod P"
  define j' where "j' = Suc k mod P"
  have P: "j < P" using N by (simp add: j_def P_def)
  have S: "j' = (if Suc j = P then 0 else Suc j)"
    unfolding j'_def j_def by (rule mod_Suc)
  from inv have out: "st_output st = int (if j < N then j else P - j)"
    and inc: "if j = 0 then st_output_inc st = 1 \<or> st_output_inc st = - 1
              else if j < N then st_output_inc st = 1 else st_output_inc st = - 1"
    by (simp_all add: at_turn_def pingpong_def Let_def j_def P_def)
  have goal: "st_output (next_value a st) = int (if j' < N then j' else P - j') \<and>
      (if j' = 0 then st_output_inc (next_value a st) = 1 \<or> st_output_inc (next_value a st) = - 1
       else if j' < N then st_output_inc (next_value a st) = 1
       else st_output_inc (next_value a st) = - 1)"
  proof -
    consider (zero) "j = 0" | (up) "0 < j" "j < N - 1" | (top) "j = N - 1" |
      (down) "N \<le> j" "Suc j < P" | (last) "Suc j = P"
      using P N P_def by linarith
    then show ?thesis
    proof cases
      case zero
      with out inc N cnt S P_def show ?thesis
        by (auto simp: next_value_def Let_def)
    next
      case up
      with out inc N cnt S P_def show ?thesis
        by (auto simp: next_value_def Let_def)
    next
      case top
      with out inc N cnt S P_def show ?thesis
        by (auto simp: next_value_def Let_def)
    next
      case down
      with out inc N cnt S P_def show ?thesis
        by (auto simp: next_value_def Let_def)
    next
      case last
      with out inc N cnt S P_def show ?thesis
        by (auto simp: next_value_def Let_def)
    qed
  qed
  then show ?thesis
    by (simp add: at_turn_def pingpong_def Let_def j'_def P_def)
qed

text \<open>The requests in the events of the two halves of a turn.\<close>

lemma sends_append: "sends (xs @ ys) = sends xs @ sends ys"
  by (induction xs rule: sends.induct) simp_all

lemma sends_map_Clflush: "sends (map (\<lambda>k. Clflush (f k)) ks) = []"
  by (induction ks) simp_all

lemma render_frame_sends:
  "sends (fst (app_render_frame a i ok inbox)) = (if ok then [word_of_int i] else [])"
  by (cases inbox)
     (simp_all add: app_render_frame_def app_send_def app_recv_def Let_def sends_append)

lemma render_frame_Inr_sent:
  "snd (app_render_frame a i ok inbox) = Inr rest \<Longrightarrow> ok"
  by (cases inbox)
     (auto simp: app_render_frame_def app_send_def app_recv_def Let_def split: if_splits)

lemma present_frame_sends: "sends (fst (app_present_frame a i)) = []"
  by (simp add: app_present_frame_def Let_def sends_append clflush_loop_eq sends_map_Clflush)

lemma at_turn_inbox [simp]: "at_turn N k (st\<lparr>st_inbox := rest\<rparr>) = at_turn N k st"
  by (simp add: at_turn_def)

text \<open>
  From turn \<open>k\<close> on, the requests of any number of turns are the pattern from \<open>k\<close> on;
  there is one request per turn unless a fatal error ended the run.
\<close>

lemma mainloop_turns_sends:
  assumes N: "2 \<le> N" and cnt: "app_output_count a = int N"
  shows "at_turn N k st \<Longrightarrow>
    \<exists>m\<le>length envs.
      sends (fst (mainloop_turns a envs st)) =
        map (\<lambda>j. word_of_int (int (pingpong N j))) [k..<k + m] \<and>
      (isl (snd (mainloop_turns a envs st)) \<or> m = length envs)"
proof (induction envs arbitrary: st k)
  case Nil
  show ?case by simp
next
  case (Cons env envs)
  let ?w = "\<lambda>j. word_of_int (int (pingpong N j)) :: u32"
  from Cons.prems have out: "st_output st = int (pingpong N k)" by (simp add: at_turn_def)
  obtain t1 r1 where rf: "app_render_frame a (st_output st) (fe_send_ok env)
        (st_inbox st @ fe_arrived env) = (t1, r1)"
    by (cases "app_render_frame a (st_output st) (fe_send_ok env)
        (st_inbox st @ fe_arrived env)")
  obtain t2 r2 where pf: "app_present_frame a (st_output st) = (t2, r2)"
    by (cases "app_present_frame a (st_output st)")
  have s1: "sends t1 = (if fe_send_ok env then [?w k] else [])"
    using render_frame_sends [of a "st_output st" "fe_send_ok env"
        "st_inbox st @ fe_arrived env"] rf out by simp
  have s2: "sends t2 = []"
    using present_frame_sends [of a "st_output st"] pf by simp
  have one: "[k..<k + 1] = [k]" by simp
  show ?case
  proof (cases "fe_xcb_event env")
    case True
    then have "sends (fst (mainloop_turns a (env # envs) st)) = map ?w [k..<k + 0] \<and>
        isl (snd (mainloop_turns a (env # envs) st))" by simp
    then show ?thesis by blast
  next
    case False
    note nx = this
    show ?thesis
    proof (cases r1)
      case (Inl e)
      with nx rf s1 have "sends (fst (mainloop_turns a (env # envs) st)) =
            map ?w [k..<k + (if fe_send_ok env then 1 else 0)] \<and>
          isl (snd (mainloop_turns a (env # envs) st))"
        by simp
      moreover have "(if fe_send_ok env then 1 else 0 :: nat) \<le> length (env # envs)" by simp
      ultimately show ?thesis by blast
    next
      case (Inr rest)
      note r1 = this
      from rf r1 have "fe_send_ok env"
        using render_frame_Inr_sent [of a "st_output st" "fe_send_ok env"
            "st_inbox st @ fe_arrived env" rest] by simp
      with s1 have s1': "sends t1 = [?w k]" by simp
      show ?thesis
      proof (cases r2)
        case (Inl e)
        with nx rf pf r1 s1' s2 have "sends (fst (mainloop_turns a (env # envs) st)) =
            map ?w [k..<k + 1] \<and> isl (snd (mainloop_turns a (env # envs) st))"
          by (simp add: sends_append)
        moreover have "(1 :: nat) \<le> length (env # envs)" by simp
        ultimately show ?thesis by blast
      next
        case (Inr u)
        let ?st' = "next_value a (st\<lparr>st_inbox := rest\<rparr>)"
        obtain t3 r3 where ml: "mainloop_turns a envs ?st' = (t3, r3)"
          by (cases "mainloop_turns a envs ?st'")
        have "at_turn N (Suc k) ?st'"
          using next_value_at_turn [OF N cnt, of k "st\<lparr>st_inbox := rest\<rparr>"] Cons.prems
          by simp
        from Cons.IH [OF this] ml obtain m where
          m: "m \<le> length envs" "sends t3 = map ?w [Suc k..<Suc k + m]"
             "isl r3 \<or> m = length envs"
          by auto
        have "[k..<k + Suc m] = k # [Suc k..<Suc k + m]"
          by (simp add: upt_conv_Cons del: upt_Suc)
        with nx rf pf r1 Inr ml s1' s2 m
        have "sends (fst (mainloop_turns a (env # envs) st)) = map ?w [k..<k + Suc m] \<and>
            (isl (snd (mainloop_turns a (env # envs) st)) \<or> Suc m = length (env # envs))"
          by (simp add: sends_append del: upt_Suc)
        moreover from m have "Suc m \<le> length (env # envs)" by simp
        ultimately show ?thesis by blast
      qed
    qed
  qed
qed

text \<open>Requests and replies alternate, whatever the environment does.\<close>

lemma alternation_quiet:
  "\<forall>ev\<in>set xs. \<forall>v. ev \<noteq> Send v \<and> ev \<noteq> Recv v \<Longrightarrow>
     strict_alternation w (xs @ ys) = strict_alternation w ys"
proof (induction xs)
  case Nil
  show ?case by simp
next
  case (Cons x xs)
  then show ?case by (cases x) simp_all
qed

lemma render_frame_alternation:
  "app_render_frame a i ok inbox = (t1, res) \<Longrightarrow>
     (case res of Inl e \<Rightarrow> strict_alternation False t1
      | Inr rest \<Rightarrow> \<forall>ys. strict_alternation False (t1 @ ys) = strict_alternation False ys)"
  by (cases inbox)
     (auto simp: app_render_frame_def app_send_def app_recv_def Let_def split: if_splits)

lemma present_frame_alternation:
  "strict_alternation w (fst (app_present_frame a i) @ ys) = strict_alternation w ys"
  by (rule alternation_quiet)
     (auto simp: app_present_frame_def Let_def clflush_loop_eq)

lemma mainloop_turns_alternation:
  "strict_alternation False (fst (mainloop_turns a envs st))"
proof (induction envs arbitrary: st)
  case Nil
  show ?case by simp
next
  case (Cons env envs)
  obtain t1 r1 where rf: "app_render_frame a (st_output st) (fe_send_ok env)
        (st_inbox st @ fe_arrived env) = (t1, r1)"
    by (cases "app_render_frame a (st_output st) (fe_send_ok env)
        (st_inbox st @ fe_arrived env)")
  obtain t2 r2 where pf: "app_present_frame a (st_output st) = (t2, r2)"
    by (cases "app_present_frame a (st_output st)")
  have q2: "strict_alternation w (t2 @ ys) = strict_alternation w ys" for w ys
    using present_frame_alternation [of w a "st_output st" ys] pf by simp
  show ?case
  proof (cases "fe_xcb_event env")
    case True
    then show ?thesis by simp
  next
    case False
    note nx = this
    show ?thesis
    proof (cases r1)
      case (Inl e)
      with render_frame_alternation [OF rf] nx rf show ?thesis by simp
    next
      case (Inr rest)
      with render_frame_alternation [OF rf]
      have q1: "strict_alternation False (t1 @ ys) = strict_alternation False ys" for ys
        by simp
      obtain t3 r3 where ml: "mainloop_turns a envs (next_value a (st\<lparr>st_inbox := rest\<rparr>))
          = (t3, r3)"
        by (cases "mainloop_turns a envs (next_value a (st\<lparr>st_inbox := rest\<rparr>))")
      have a3: "strict_alternation False t3"
        using Cons.IH [of "next_value a (st\<lparr>st_inbox := rest\<rparr>)"] ml by simp
      show ?thesis
      proof (cases r2)
        case (Inl e)
        from q1 [of t2] q2 [of False "[]"] have "strict_alternation False (t1 @ t2)" by simp
        with nx rf pf Inr Inl show ?thesis by simp
      next
        case (Inr u)
        from q1 [of "t2 @ t3"] q2 [of False t3] a3
        have "strict_alternation False (t1 @ t2 @ t3)" by simp
        with nx rf pf \<open>r1 = Inr rest\<close> Inr ml show ?thesis by simp
      qed
    qed
  qed
qed

lemma sends_in_range:
  "list_all (\<lambda>v. unat v < N) (map (\<lambda>k. word_of_int (int (pingpong N k)) :: u32) ks)"
  if "0 < N"
proof -
  have "unat (word_of_int (int (pingpong N k)) :: u32) < N" for k
  proof -
    have "unat (word_of_int (int (pingpong N k)) :: u32) = pingpong N k mod 2 ^ 32"
      by (simp add: unat_of_nat)
    also have "\<dots> \<le> pingpong N k" by simp
    finally show ?thesis using pingpong_less [OF that, of k] by simp
  qed
  then show ?thesis by (simp add: list_all_iff)
qed

text \<open>
  C8. For an output count \<open>N\<close> of at least 2 (the demo has 64), and for any number of
  turns of \<open>app_mainloop\<close> under any environment: the requests sent are, in order, the
  indices of the ping-pong pattern \<open>0, 1, ..., N-1, N-1, N-2, ..., 0, 1, 2, ...\<close>, one per
  turn unless a fatal error ended the run; every requested index is below \<open>N\<close>; and
  requests and replies alternate strictly, so a request is sent only when the reply to
  the one before has been read.
\<close>

theorem mainloop_requests_pingpong:
  assumes N: "2 \<le> N" and cnt: "app_output_count a = int N"
  shows "sends (fst (app_mainloop a envs inbox)) =
           map (\<lambda>k. word_of_int (int (pingpong N k)))
             [0..<length (sends (fst (app_mainloop a envs inbox)))] \<and>
         (isl (snd (app_mainloop a envs inbox)) \<or>
            length (sends (fst (app_mainloop a envs inbox))) = length envs) \<and>
         list_all (\<lambda>v. unat v < N) (sends (fst (app_mainloop a envs inbox))) \<and>
         strict_alternation False (fst (app_mainloop a envs inbox)) \<and>
         (\<forall>k. pingpong N k < N \<and>
              (k < N \<longrightarrow> pingpong N k = k) \<and>
              (N \<le> k \<and> k < 2 * N - 1 \<longrightarrow> pingpong N k = 2 * N - 1 - k) \<and>
              pingpong N (k + (2 * N - 1)) = pingpong N k)"
proof -
  let ?st0 = "\<lparr>st_output = 0, st_output_inc = 1, st_channel = 0, st_inbox = inbox\<rparr>"
  let ?w = "\<lambda>k. word_of_int (int (pingpong N k)) :: u32"
  have "at_turn N 0 ?st0" by (simp add: at_turn_def pingpong_def)
  from mainloop_turns_sends [OF N cnt this, of envs] obtain m where
    m: "sends (fst (mainloop_turns a envs ?st0)) = map ?w [0..<m]"
       "isl (snd (mainloop_turns a envs ?st0)) \<or> m = length envs"
    by auto
  from m(1) have len: "length (sends (fst (mainloop_turns a envs ?st0))) = m" by simp
  have pos: "0 < N" using N by simp
  have 1: "sends (fst (app_mainloop a envs inbox)) =
           map ?w [0..<length (sends (fst (app_mainloop a envs inbox)))]"
    using m(1) len by (simp add: app_mainloop_def)
  have 2: "isl (snd (app_mainloop a envs inbox)) \<or>
            length (sends (fst (app_mainloop a envs inbox))) = length envs"
    using m(2) len by (simp add: app_mainloop_def)
  have 3: "list_all (\<lambda>v. unat v < N) (sends (fst (app_mainloop a envs inbox)))"
    using sends_in_range [OF pos, of "[0..<m]"] m(1) by (simp add: app_mainloop_def)
  have 4: "strict_alternation False (fst (app_mainloop a envs inbox))"
    by (simp add: app_mainloop_def mainloop_turns_alternation)
  have 5: "\<forall>k. pingpong N k < N \<and>
              (k < N \<longrightarrow> pingpong N k = k) \<and>
              (N \<le> k \<and> k < 2 * N - 1 \<longrightarrow> pingpong N k = 2 * N - 1 - k) \<and>
              pingpong N (k + (2 * N - 1)) = pingpong N k"
    using pingpong_less [OF pos] pingpong_pattern [of _ N] by blast
  from 1 2 3 4 5 show ?thesis by blast
qed

text \<open>Three turns of the controller of the demo, the renderer replying as it should.\<close>

lemma demo_run:
  "app_mainloop demo_app [reply_env 0, reply_env 1, reply_env 2] [] =
     ([Write_ubo 0x7f0000000000, Send 0, Recv 0, Put_image 0x7f0000001000,
       Write_ubo 0x7f0000000000, Send 1, Recv 1, Put_image 0x7f0000161000,
       Write_ubo 0x7f0000000000, Send 2, Recv 2, Put_image 0x7f00002c1000],
      Inr \<lparr>st_output = 3, st_output_inc = 1, st_channel = 0, st_inbox = []\<rparr>)"
  by (simp add: app_mainloop_def demo_app_def reply_env_def app_render_frame_def
      app_send_def app_recv_def app_present_frame_def next_value_def Let_def)

text \<open>The theorem at \<open>N = 64\<close>, with the turning points of the pattern.\<close>

theorem mainloop_requests_pingpong_witness:
  "(2 :: nat) \<le> 64 \<and> app_output_count demo_app = int 64 \<and>
   sends (fst (app_mainloop demo_app [reply_env 0, reply_env 1, reply_env 2] [])) = [0, 1, 2] \<and>
   strict_alternation False
     (fst (app_mainloop demo_app [reply_env 0, reply_env 1, reply_env 2] [])) \<and>
   pingpong 64 63 = 63 \<and> pingpong 64 64 = 63 \<and> pingpong 64 126 = 1 \<and>
   pingpong 64 127 = 0 \<and> pingpong 64 128 = 1"
proof -
  have N: "(2 :: nat) \<le> 64" by simp
  have cnt: "app_output_count demo_app = int 64" by (simp add: demo_app_def)
  note th = mainloop_requests_pingpong [OF N cnt, of "[reply_env 0, reply_env 1, reply_env 2]" "[]"]
  from th have alt: "strict_alternation False
     (fst (app_mainloop demo_app [reply_env 0, reply_env 1, reply_env 2] []))" by blast
  have s: "sends (fst (app_mainloop demo_app [reply_env 0, reply_env 1, reply_env 2] [])) =
     [0, 1, 2]" by (simp add: demo_run)
  have p: "pingpong 64 63 = 63 \<and> pingpong 64 64 = 63 \<and> pingpong 64 126 = 1 \<and>
   pingpong 64 127 = 0 \<and> pingpong 64 128 = 1"
    by (simp add: pingpong_def)
  from N cnt alt s p show ?thesis by blast
qed

section \<open>Properties of the handshake\<close>

text \<open>A renderer that gets past the handshake has written the three words of its layout.\<close>

lemma renderer_main_Inr:
  assumes "renderer_main dev r ok1 ok2 ok3 outp = Inr (l, outp')"
  shows "renderer_init_heap_layout dev r = Inr l \<and> ok1 \<and> ok2 \<and> ok3 \<and>
         outp' = outp @ [ucast (hl_base_skip l), ucast (hl_ubo_size l),
                         ucast (hl_output_size l)]"
  using assms
  by (auto simp: renderer_main_def renderer_send_def split: sum.splits if_splits)

text \<open>The controller reads three words before anything else, and fewer are fatal.\<close>

lemma main_controller_three:
  "main_controller a malloc_ok (v1 # v2 # v3 # rest) envs =
     (case app_init_memories a malloc_ok (unat v1) (unat v2) (unat v3) of
        Inl e \<Rightarrow> ([Recv v1, Recv v2, Recv v3], Inl e)
      | Inr a' \<Rightarrow> (Recv v1 # Recv v2 # Recv v3 # fst (app_mainloop a' envs rest),
                   snd (app_mainloop a' envs rest)))"
  by (simp add: main_controller_def app_recv_def Let_def split: sum.splits prod.splits)

lemma main_controller_short:
  "length inbox < 3 \<Longrightarrow> sends (fst (main_controller a malloc_ok inbox envs)) = []"
proof -
  assume "length inbox < 3"
  then consider "inbox = []" | v1 where "inbox = [v1]" | v1 v2 where "inbox = [v1, v2]"
    by (cases inbox; cases "tl inbox"; cases "tl (tl inbox)") auto
  then show ?thesis
    by cases (simp_all add: main_controller_def app_recv_def)
qed

text \<open>
  C6. A renderer that completes the handshake has appended to the reply channel exactly
  three 4-byte words, in the order \<open>base_skip\<close>, uniform slot size, output slot size of
  the layout it computed. The controller takes the first three words of the channel, in
  that order, as \<open>heap_skip\<close>, \<open>ubo_size\<close> and \<open>output_size\<close> of \<open>app_init_memories\<close>, and
  only then runs the main loop: whenever its trace holds a request, the trace starts
  with the three reads.
\<close>

theorem handshake_three_in_order:
  "(\<forall>l outp'. renderer_main dev r ok1 ok2 ok3 outp = Inr (l, outp') \<longrightarrow>
      renderer_init_heap_layout dev r = Inr l \<and>
      outp' = outp @ [ucast (hl_base_skip l), ucast (hl_ubo_size l),
                      ucast (hl_output_size l)]) \<and>
   main_controller a malloc_ok (v1 # v2 # v3 # rest) envs =
     (case app_init_memories a malloc_ok (unat v1) (unat v2) (unat v3) of
        Inl e \<Rightarrow> ([Recv v1, Recv v2, Recv v3], Inl e)
      | Inr a' \<Rightarrow> (Recv v1 # Recv v2 # Recv v3 # fst (app_mainloop a' envs rest),
                   snd (app_mainloop a' envs rest))) \<and>
   (sends (fst (main_controller a malloc_ok inbox envs)) \<noteq> [] \<longrightarrow>
      (\<exists>t. fst (main_controller a malloc_ok inbox envs) =
            map Recv (take 3 inbox) @ t) \<and> 3 \<le> length inbox)"
proof (intro conjI allI impI)
  fix l outp'
  assume run: "renderer_main dev r ok1 ok2 ok3 outp = Inr (l, outp')"
  from renderer_main_Inr [OF run] show "renderer_init_heap_layout dev r = Inr l" by simp
  from renderer_main_Inr [OF run]
  show "outp' = outp @ [ucast (hl_base_skip l), ucast (hl_ubo_size l),
                      ucast (hl_output_size l)]" by simp
next
  show "main_controller a malloc_ok (v1 # v2 # v3 # rest) envs =
     (case app_init_memories a malloc_ok (unat v1) (unat v2) (unat v3) of
        Inl e \<Rightarrow> ([Recv v1, Recv v2, Recv v3], Inl e)
      | Inr a' \<Rightarrow> (Recv v1 # Recv v2 # Recv v3 # fst (app_mainloop a' envs rest),
                   snd (app_mainloop a' envs rest)))"
    by (rule main_controller_three)
next
  assume s: "sends (fst (main_controller a malloc_ok inbox envs)) \<noteq> []"
  with main_controller_short [of inbox a malloc_ok envs]
  show len: "3 \<le> length inbox" by (cases "length inbox < 3") auto
  then obtain v1 v2 v3 rest where ib: "inbox = v1 # v2 # v3 # rest"
    by (cases inbox; cases "tl inbox"; cases "tl (tl inbox)") auto
  show "\<exists>t. fst (main_controller a malloc_ok inbox envs) = map Recv (take 3 inbox) @ t"
    unfolding ib main_controller_three
    by (cases "app_init_memories a malloc_ok (unat v1) (unat v2) (unat v3)") simp_all
qed

text \<open>The layout of the demo on a device with pages of 4096 bytes, and the controller on it.\<close>

lemma demo_layout:
  "renderer_init_heap_layout (device_of False 16 1440000 4096)
      (renderer_of 64 8589934592 0x7f0000000000) =
     Inr \<lparr>hl_base_skip = 0, hl_ubo_size = 4096, hl_output_size = 1441792,
          hl_handle_type = HOST_ALLOCATION, hl_ubo_used_size = 16,
          hl_output_used_size = 1440000\<rparr>"
  by (simp add: renderer_init_heap_layout_def renderer_get_heap_buffer_props_def
      device_of_def renderer_of_def int_mul_def)

lemma demo_init_memories:
  "app_init_memories demo_app True 0 4096 1441792 = Inr demo_app"
  by (simp add: app_init_memories_def output_pointers_eq demo_app_def Let_def del: upt_Suc)

text \<open>The theorem at the demo: the words 0, 4096, 1441792, then three frames.\<close>

theorem handshake_three_in_order_witness:
  "renderer_main (device_of False 16 1440000 4096) (renderer_of 64 8589934592 0x7f0000000000)
      True True True [] =
     Inr (\<lparr>hl_base_skip = 0, hl_ubo_size = 4096, hl_output_size = 1441792,
           hl_handle_type = HOST_ALLOCATION, hl_ubo_used_size = 16,
           hl_output_used_size = 1440000\<rparr>, [0, 4096, 1441792]) \<and>
   fst (main_controller demo_app True [0, 4096, 1441792]
          [reply_env 0, reply_env 1, reply_env 2]) =
     [Recv 0, Recv 4096, Recv 1441792,
      Write_ubo 0x7f0000000000, Send 0, Recv 0, Put_image 0x7f0000001000,
      Write_ubo 0x7f0000000000, Send 1, Recv 1, Put_image 0x7f0000161000,
      Write_ubo 0x7f0000000000, Send 2, Recv 2, Put_image 0x7f00002c1000] \<and>
   sends (fst (main_controller demo_app True [0, 4096, 1441792]
          [reply_env 0, reply_env 1, reply_env 2])) = [0, 1, 2]"
proof -
  let ?dev = "device_of False 16 1440000 4096"
  let ?r = "renderer_of 64 8589934592 0x7f0000000000"
  let ?l = "\<lparr>hl_base_skip = 0, hl_ubo_size = 4096, hl_output_size = 1441792,
           hl_handle_type = HOST_ALLOCATION, hl_ubo_used_size = 16,
           hl_output_used_size = 1440000\<rparr>"
  let ?envs = "[reply_env 0, reply_env 1, reply_env 2]"
  note th = handshake_three_in_order [of ?dev ?r True True True "[]" demo_app True
      0 4096 1441792 "[]" ?envs "[0, 4096, 1441792]"]
  have run: "renderer_main ?dev ?r True True True [] = Inr (?l, [0, 4096, 1441792])"
    by (simp add: renderer_main_def renderer_send_def demo_layout)
  from th have ctl: "main_controller demo_app True [0, 4096, 1441792] ?envs =
     (case app_init_memories demo_app True (unat (0 :: u32)) (unat (4096 :: u32))
             (unat (1441792 :: u32)) of
        Inl e \<Rightarrow> ([Recv 0, Recv 4096, Recv 1441792], Inl e)
      | Inr a' \<Rightarrow> (Recv 0 # Recv 4096 # Recv 1441792 # fst (app_mainloop a' ?envs []),
                   snd (app_mainloop a' ?envs [])))"
    by blast
  have tr: "fst (main_controller demo_app True [0, 4096, 1441792] ?envs) =
     [Recv 0, Recv 4096, Recv 1441792,
      Write_ubo 0x7f0000000000, Send 0, Recv 0, Put_image 0x7f0000001000,
      Write_ubo 0x7f0000000000, Send 1, Recv 1, Put_image 0x7f0000161000,
      Write_ubo 0x7f0000000000, Send 2, Recv 2, Put_image 0x7f00002c1000]"
    unfolding ctl by (simp add: demo_init_memories demo_run)
  have "sends (fst (main_controller demo_app True [0, 4096, 1441792] ?envs)) = [0, 1, 2]"
    unfolding tr by simp
  with run tr show ?thesis by blast
qed





section \<open>Properties of the renderer token\<close>

text \<open>The characters that \<open>%d\<close> prints for a digit are digits, and nothing else.\<close>

lemma of_char_digit_char: "d < 10 \<Longrightarrow> (of_char (digit_char d) :: nat) = 48 + d"
  by (simp add: digit_char_def)

lemma digit_char_props:
  assumes "d < 10"
  shows "isdigit (digit_char d)" and "digit_val (digit_char d) = d"
    and "\<not> isspace (digit_char d)"
    and "digit_char d \<noteq> CHR ''-''" and "digit_char d \<noteq> CHR ''+''"
proof -
  note oc = of_char_digit_char [OF assms]
  show "isdigit (digit_char d)" using assms by (simp add: isdigit_def oc)
  show "digit_val (digit_char d) = d" by (simp add: digit_val_def oc)
  show "\<not> isspace (digit_char d)" by (simp add: isspace_def oc)
  have "(of_char (digit_char d) :: nat) \<noteq> of_char CHR ''-''" by (simp add: oc)
  then show "digit_char d \<noteq> CHR ''-''" by auto
  have "(of_char (digit_char d) :: nat) \<noteq> of_char CHR ''+''" by (simp add: oc)
  then show "digit_char d \<noteq> CHR ''+''" by auto
qed

text \<open>The decimal text of a number: digits only, at least one, and its value is the number.\<close>

lemma dec_digits: "list_all isdigit (dec n)"
proof (induction n rule: dec.induct)
  case (1 n)
  show ?case
  proof (cases "n < 10")
    case True
    then show ?thesis by (subst dec.simps) (simp add: digit_char_props)
  next
    case False
    have "n mod 10 < 10" by simp
    with False "1.IH" show ?thesis by (subst dec.simps) (simp add: digit_char_props)
  qed
qed

lemma dec_not_Nil: "dec n \<noteq> []"
  by (subst dec.simps) simp

lemma hd_dec: "\<exists>d t. d < 10 \<and> dec n = digit_char d # t"
proof (induction n rule: dec.induct)
  case (1 n)
  show ?case
  proof (cases "n < 10")
    case True
    then have "dec n = digit_char n # []" by (subst dec.simps) simp
    with True show ?thesis by blast
  next
    case False
    with "1.IH" obtain d t where dt: "d < 10" "dec (n div 10) = digit_char d # t" by blast
    from False have "dec n = dec (n div 10) @ [digit_char (n mod 10)]"
      by (subst dec.simps) simp
    with dt have "dec n = digit_char d # (t @ [digit_char (n mod 10)])" by simp
    with dt(1) show ?thesis by blast
  qed
qed

lemma digits_val_snoc: "digits_val (ds @ [c]) = digits_val ds * 10 + digit_val c"
  by (simp add: digits_val_def)

lemma digits_val_dec: "digits_val (dec n) = n"
proof (induction n rule: dec.induct)
  case (1 n)
  show ?case
  proof (cases "n < 10")
    case True
    then have "dec n = [digit_char n]" by (subst dec.simps) simp
    with True show ?thesis by (simp add: digits_val_def digit_char_props)
  next
    case False
    then have "dec n = dec (n div 10) @ [digit_char (n mod 10)]"
      by (subst dec.simps) simp
    moreover have "n mod 10 < 10" by simp
    ultimately show ?thesis
      using "1.IH" [OF False] by (simp add: digits_val_snoc digit_char_props)
  qed
qed

text \<open>Scanning reads a printed number back and stops at the first character that is no digit.\<close>

lemma scan_d_dec:
  assumes n: "n < 2 ^ 31" and stop: "rest = [] \<or> \<not> isdigit (hd rest)"
  shows "scan_d (dec n @ rest) = Scan_ok (int n) rest"
proof -
  from hd_dec [of n] obtain d t where dt: "d < 10" "dec n = digit_char d # t" by blast
  have sp: "dropWhile isspace (dec n @ rest) = dec n @ rest"
    using dt by (simp add: digit_char_props)
  have all: "\<And>x. x \<in> set (dec n) \<Longrightarrow> isdigit x"
    using dec_digits [of n] by (simp add: list_all_iff)
  from stop have tr: "takeWhile isdigit rest = []" and dr: "dropWhile isdigit rest = rest"
    by (cases rest; simp)+
  have tw: "takeWhile isdigit (dec n @ rest) = dec n"
    using all tr by (simp add: takeWhile_append2)
  have dw: "dropWhile isdigit (dec n @ rest) = rest"
    using all dr by (simp add: dropWhile_append2)
  have sign: "(case dec n @ rest of [] \<Rightarrow> (False, dec n @ rest)
                | c # t \<Rightarrow> if c = CHR ''-'' then (True, t)
                           else if c = CHR ''+'' then (False, t) else (False, dec n @ rest))
        = (False, dec n @ rest)"
    using dt digit_char_props(4,5) [OF dt(1)] by simp
  have rng: "\<not> (int n < - (2 ^ 31) \<or> 2 ^ 31 \<le> int n)" using n by simp
  show ?thesis
    using rng by (simp add: scan_d_def Let_def sp sign tw dw digits_val_dec dec_not_Nil)
qed

lemma fmt_d_nonneg: "0 \<le> i \<Longrightarrow> fmt_d i = dec (nat i)"
  by (simp add: fmt_d_def)

lemma not_isdigit_dash: "\<not> isdigit CHR ''-''"
  by (simp add: isdigit_def)

lemma sscanf_token:
  assumes "0 \<le> x" "x < 2 ^ 31" "0 \<le> y" "y < 2 ^ 31" "0 \<le> z" "z < 2 ^ 31"
  shows "sscanf_d_d_d (fmt_d x @ ''-'' @ fmt_d y @ ''-'' @ fmt_d z) = Inr (3, x, y, z)"
proof -
  have nx: "nat x < 2 ^ 31" and ny: "nat y < 2 ^ 31" and nz: "nat z < 2 ^ 31"
    using assms by simp_all
  have 1: "scan_d (dec (nat x) @ CHR ''-'' # dec (nat y) @ CHR ''-'' # dec (nat z)) =
      Scan_ok x (CHR ''-'' # dec (nat y) @ CHR ''-'' # dec (nat z))"
    using scan_d_dec [OF nx, of "CHR ''-'' # dec (nat y) @ CHR ''-'' # dec (nat z)"] assms
    by (simp add: not_isdigit_dash)
  have 2: "scan_d (dec (nat y) @ CHR ''-'' # dec (nat z)) =
      Scan_ok y (CHR ''-'' # dec (nat z))"
    using scan_d_dec [OF ny, of "CHR ''-'' # dec (nat z)"] assms
    by (simp add: not_isdigit_dash)
  have 3: "scan_d (dec (nat z)) = Scan_ok z []"
    using scan_d_dec [OF nz, of "[]"] assms by simp
  show ?thesis
    using assms by (simp add: sscanf_d_d_d_def fmt_d_nonneg 1 2 3)
qed

lemma main_role_token:
  assumes "0 \<le> x" "x < 2 ^ 31" "0 \<le> y" "y < 2 ^ 31" "0 \<le> z" "z < 2 ^ 31"
  shows "main_role [argv0, ''renderer-'' @ fmt_d x @ ''-'' @ fmt_d y @ ''-'' @ fmt_d z,
                    if u then ''udmabuf'' else ''memfd''] = Inr (Renderer_role x y z u)"
proof -
  define body where "body = fmt_d x @ ''-'' @ fmt_d y @ ''-'' @ fmt_d z"
  define tok where "tok = ''renderer-'' @ body"
  have t: "take 9 tok = ''renderer-''" and d: "drop 9 tok = body"
    by (simp_all add: tok_def)
  have sc: "sscanf_d_d_d body = Inr (3, x, y, z)"
    unfolding body_def by (rule sscanf_token [OF assms])
  have "main_role [argv0, tok, if u then ''udmabuf'' else ''memfd''] =
      Inr (Renderer_role x y z u)"
    by (simp add: main_role_def t d sc)
  then show ?thesis by (simp add: tok_def body_def)
qed

text \<open>
  C9. For descriptor numbers that are non-negative values of \<open>int\<close>: when the token
  \<open>renderer-<in-fd>-<out-fd>-<heap-fd>\<close> fits the 32-byte buffer (its length is below
  32), \<open>app_init_renderer\<close> builds the argument vector with that token, and \<open>main\<close> on
  this vector takes the renderer role with the same three descriptors and the same
  import path; when the token does not fit, formatting is fatal.
\<close>

theorem renderer_token_roundtrip:
  assumes "0 \<le> x" "x < 2 ^ 31" "0 \<le> y" "y < 2 ^ 31" "0 \<le> z" "z < 2 ^ 31"
  shows "(\<forall>argv. app_init_renderer_argv argv0 u x y z = Inr argv \<longrightarrow>
            main_role argv = Inr (Renderer_role x y z u)) \<and>
         (length (''renderer-'' @ fmt_d x @ ''-'' @ fmt_d y @ ''-'' @ fmt_d z) < 32 \<longrightarrow>
            app_init_renderer_argv argv0 u x y z =
              Inr [argv0, ''renderer-'' @ fmt_d x @ ''-'' @ fmt_d y @ ''-'' @ fmt_d z,
                   if u then ''udmabuf'' else ''memfd'']) \<and>
         (32 \<le> length (''renderer-'' @ fmt_d x @ ''-'' @ fmt_d y @ ''-'' @ fmt_d z) \<longrightarrow>
            app_init_renderer_argv argv0 u x y z =
              Inl (App_fatal ''failed to format the renderer string''))"
proof -
  define tok where "tok = ''renderer-'' @ fmt_d x @ ''-'' @ fmt_d y @ ''-'' @ fmt_d z"
  have fit: "app_init_renderer_argv argv0 u x y z =
      Inr [argv0, tok, if u then ''udmabuf'' else ''memfd'']" if "length tok < 32"
    using that unfolding app_init_renderer_argv_def snprintf_def tok_def [symmetric]
    by simp
  have nofit: "app_init_renderer_argv argv0 u x y z =
      Inl (App_fatal ''failed to format the renderer string'')" if "32 \<le> length tok"
    using that unfolding app_init_renderer_argv_def snprintf_def tok_def [symmetric]
    by simp
  have rt: "main_role argv = Inr (Renderer_role x y z u)"
    if "app_init_renderer_argv argv0 u x y z = Inr argv" for argv
  proof (cases "length tok < 32")
    case True
    from fit [OF True] that have "argv = [argv0, tok, if u then ''udmabuf'' else ''memfd'']"
      by simp
    then show ?thesis using main_role_token [OF assms, of argv0 u] by (simp add: tok_def)
  next
    case False
    then have "32 \<le> length tok" by simp
    from nofit [OF this] that show ?thesis by simp
  qed
  from fit nofit rt show ?thesis unfolding tok_def by blast
qed

text \<open>
  The theorem at the descriptors 5, 8, 9, and at three descriptors whose token has 32
  characters.
\<close>

theorem renderer_token_roundtrip_witness:
  "app_init_renderer_argv ''./vkmemfd'' False 5 8 9 =
     Inr [''./vkmemfd'', ''renderer-5-8-9'', ''memfd''] \<and>
   main_role [''./vkmemfd'', ''renderer-5-8-9'', ''memfd''] = Inr (Renderer_role 5 8 9 False) \<and>
   app_init_renderer_argv ''./vkmemfd'' True 12345678 12345678 12345 =
     Inl (App_fatal ''failed to format the renderer string'')"
proof -
  have tok: "''renderer-'' @ fmt_d 5 @ ''-'' @ fmt_d 8 @ ''-'' @ fmt_d 9 = ''renderer-5-8-9''"
    by code_simp
  have short: "length (''renderer-'' @ fmt_d 5 @ ''-'' @ fmt_d 8 @ ''-'' @ fmt_d 9) < 32"
    by code_simp
  have long: "32 \<le> length (''renderer-'' @ fmt_d 12345678 @ ''-'' @ fmt_d 12345678 @ ''-'' @
      fmt_d 12345)"
    by (simp add: fmt_d_def dec.simps)
  have r5: "(0::int) \<le> 5" "(5::int) < 2 ^ 31" "(0::int) \<le> 8" "(8::int) < 2 ^ 31"
    "(0::int) \<le> 9" "(9::int) < 2 ^ 31" by simp_all
  have rl: "(0::int) \<le> 12345678" "(12345678::int) < 2 ^ 31" "(0::int) \<le> 12345678"
    "(12345678::int) < 2 ^ 31" "(0::int) \<le> 12345" "(12345::int) < 2 ^ 31" by simp_all
  note a = renderer_token_roundtrip [OF r5, of "''./vkmemfd''" False]
  note b = renderer_token_roundtrip [OF rl, of "''./vkmemfd''" True]
  note run0 = a [THEN conjunct2, THEN conjunct1, THEN mp, OF short]
  have run: "app_init_renderer_argv ''./vkmemfd'' False 5 8 9 =
     Inr [''./vkmemfd'', ''renderer-5-8-9'', ''memfd'']"
    using run0 by (simp only: tok if_False)
  note role = a [THEN conjunct1, THEN spec, THEN mp, OF run]
  note fatal = b [THEN conjunct2, THEN conjunct2, THEN mp, OF long]
  show ?thesis
    by (intro conjI) (rule run, rule role, rule fatal)
qed

end
